theory Spec2Isabelle
  imports Main "HOL-Library.Word" "HOL-Library.Multiset"
begin

unbundle bit_operations_syntax

section \<open>Data model (graph_util.hpp)\<close>

type_synonym u32 = "32 word"
type_synonym u64 = "64 word"

text \<open>
  \<^verbatim>\<open>struct VtxInfo\<close>. The two \<^verbatim>\<open>std::set<uint32_t>\<close> members are sets of 32-bit
  words; the member \<^verbatim>\<open>in\<close> is written \<open>in'\<close>. The value \<open>-1\<close> of every unsigned field is
  the all-ones word of its width.
\<close>

record VtxInfo =
  out :: "u32 set"
  in' :: "u32 set"
  comp_id :: u64
  active :: bool
  my_marker :: u32
  my_pivot :: u32
  wcc_pivot :: u32
  mark_pred :: bool
  mark_desc :: bool

text \<open>The default member initialisers: the record a default-constructed \<^verbatim>\<open>VtxInfo\<close> holds.\<close>

definition VtxInfo_default :: VtxInfo where
  "VtxInfo_default =
    \<lparr>out = {}, in' = {}, comp_id = - 1, active = True,
     my_marker = - 1, my_pivot = - 1, wcc_pivot = - 1,
     mark_pred = False, mark_desc = False\<rparr>"

text \<open>
  \<^verbatim>\<open>VtxInfo::serialize\<close> hands the archive the seven members
  \<^verbatim>\<open>ar(out, in, comp_id, active, my_pivot, mark_pred, mark_desc)\<close>, in this order. The same
  member function writes them (saving) and overwrites them in the target record (loading);
  a member that is not listed is neither written nor touched.
\<close>

type_synonym archive = "u32 set \<times> u32 set \<times> u64 \<times> bool \<times> u32 \<times> bool \<times> bool"

definition serialize_save :: "VtxInfo \<Rightarrow> archive" where
  "serialize_save info =
    (out info, in' info, comp_id info, active info, my_pivot info,
     mark_pred info, mark_desc info)"

definition serialize_load :: "archive \<Rightarrow> VtxInfo \<Rightarrow> VtxInfo" where
  "serialize_load ar info =
    (case ar of (o', i', c, a, p, mp, md) \<Rightarrow>
      info\<lparr>out := o', in' := i', comp_id := c, active := a, my_pivot := p,
            mark_pred := mp, mark_desc := md\<rparr>)"

section \<open>Pivot permuter (fpp_vertex_permuter.hpp)\<close>

text \<open>
  The data members of \<^verbatim>\<open>class FppPermuter\<close>; the trailing underscore of a member's name
  is written as a prime. \<open>m'\<close> is an \<^verbatim>\<open>unsigned\<close> that the constructor keeps at 32 or
  below, a natural number here.
\<close>

record FppPermuter =
  min_id' :: u32
  max_id' :: u32
  seed' :: u64
  full_32bit_range' :: bool
  R' :: u32
  m' :: nat
  mask' :: u32
  key' :: u32
  k1' :: u32
  k2' :: u32

text \<open>\<^verbatim>\<open>mix_key64_to_32\<close>: the SplitMix64 finaliser, folded to 32 bits.\<close>

definition mix_key64_to_32 :: "u64 \<Rightarrow> u32" where
  "mix_key64_to_32 seed =
    (let z = seed + 0x9E3779B97F4A7C15;
         z = (z XOR drop_bit 30 z) * 0xBF58476D1CE4E5B9;
         z = (z XOR drop_bit 27 z) * 0x94D049BB133111EB;
         z = z XOR drop_bit 31 z
     in ucast ((z XOR drop_bit 32 z) AND 0xFFFFFFFF))"

text \<open>\<^verbatim>\<open>ceil_log2_u64\<close>: the loop \<^verbatim>\<open>while (v > 0) { v >>= 1; ++l; }\<close> from \<open>v = n - 1\<close>, \<open>l = 0\<close>.\<close>

function ceil_log2_loop :: "u64 \<Rightarrow> nat \<Rightarrow> nat" where
  "ceil_log2_loop v l = (if v > 0 then ceil_log2_loop (drop_bit 1 v) (l + 1) else l)"
  by pat_completeness auto
termination
proof (relation "measure (\<lambda>(v, l). unat v)")
  show "wf (measure (\<lambda>(v :: u64, l :: nat). unat v))"
    by simp
next
  fix v :: u64 and l :: nat
  assume "0 < v"
  then have "unat v \<noteq> 0"
    by (simp add: unat_eq_0 word_neq_0_conv)
  then have "unat v div 2 < unat v"
    by simp
  then show "((drop_bit 1 v, l + 1), (v, l)) \<in> measure (\<lambda>(v, l). unat v)"
    by (simp add: drop_bit_eq_div unat_div)
qed

declare ceil_log2_loop.simps [simp del]

definition ceil_log2_u64 :: "u64 \<Rightarrow> nat" where
  "ceil_log2_u64 n = ceil_log2_loop (n - 1) 0"

text \<open>
  The constructor. A range with \<open>max_id \<le> min_id\<close> is replaced by \<open>[0, 0]\<close>. \<open>R64\<close> is
  computed in 64 bits; \<open>1ull << 32\<close> is \<open>push_bit 32 1\<close>.
\<close>

definition FppPermuter_new :: "u32 \<Rightarrow> u32 \<Rightarrow> u64 \<Rightarrow> FppPermuter" where
  "FppPermuter_new min_id max_id seed =
    (let mn = (if max_id \<le> min_id then 0 else min_id);
         mx = (if max_id \<le> min_id then 0 else max_id);
         R64 = (ucast mx :: u64) - ucast mn + 1;
         full = (R64 \<ge> push_bit 32 1);
         R = (if \<not> full then ucast R64 else 0);
         m = (if \<not> full then (if R \<le> 1 then 1 else ceil_log2_u64 (ucast R)) else 32);
         mask = (if \<not> full then (if m = 32 then 0xFFFFFFFF else push_bit m 1 - 1)
                 else 0xFFFFFFFF);
         key = mix_key64_to_32 seed
     in \<lparr>min_id' = mn, max_id' = mx, seed' = seed, full_32bit_range' = full,
         R' = R, m' = m, mask' = mask, key' = key,
         k1' = (key * 0x9E3779B1 + 0x85EBCA77) OR 1,
         k2' = (key * 0xC2B2AE3D + 0x27D4EB2F) OR 1\<rparr>)"

definition mul_masked :: "FppPermuter \<Rightarrow> u32 \<Rightarrow> u32 \<Rightarrow> u32" where
  "mul_masked P x k = (x * k) AND mask' P"

text \<open>\<^verbatim>\<open>permute_pow2\<close>, statement by statement. \<^verbatim>\<open>m_/2 ? m_/2 : 1\<close> is the shift distance.\<close>

definition permute_pow2 :: "FppPermuter \<Rightarrow> u32 \<Rightarrow> u32" where
  "permute_pow2 P x =
    (let v = x AND mask' P;
         v = (v XOR key' P) AND mask' P;
         v = (v XOR drop_bit (if m' P div 2 \<noteq> 0 then m' P div 2 else 1) v) AND mask' P;
         v = mul_masked P v (k1' P) AND mask' P;
         v = (v XOR drop_bit (if (m' P + 1) div 3 \<noteq> 0 then (m' P + 1) div 3 else 1) v)
               AND mask' P;
         v = mul_masked P v (k2' P) AND mask' P;
         v = (v XOR drop_bit (if m' P div 2 \<noteq> 0 then m' P div 2 else 1) v) AND mask' P;
         v = (v + key' P) AND mask' P
     in v)"

text \<open>
  \<^verbatim>\<open>fpp_permute_in_range\<close>: the cycle-walking loop \<^verbatim>\<open>do { x = permute_pow2(x); } while (x >= R_);\<close>.
  Nothing in the loop bounds the number of rounds, so the result is optional: \<open>None\<close> is a
  walk that never comes below \<open>R'\<close>.
\<close>

partial_function (option) fpp_permute_in_range :: "FppPermuter \<Rightarrow> u32 \<Rightarrow> u32 option" where
  "fpp_permute_in_range P x =
    (let x1 = permute_pow2 P x in
     if x1 \<ge> R' P then fpp_permute_in_range P x1 else Some x1)"

declare fpp_permute_in_range.simps [code]

text \<open>\<^verbatim>\<open>FppPermuter::operator()\<close>.\<close>

definition FppPermuter_call :: "FppPermuter \<Rightarrow> u32 \<Rightarrow> u32 option" where
  "FppPermuter_call P id' =
    (if id' < min_id' P \<or> id' > max_id' P then Some id'
     else if full_32bit_range' P
       then (let x = id' - min_id' P; y = permute_pow2 P x in Some (y + min_id' P))
       else (let x0 = id' - min_id' P in
             map_option (\<lambda>y. y + min_id' P) (fpp_permute_in_range P x0)))"

text \<open>
  What the constructor establishes about the power-of-two domain: \<open>m'\<close> is between 1 and
  32, \<open>mask'\<close> is the mask of \<open>m'\<close> bits, and both round constants are odd.
\<close>

definition FppPermuter_wf :: "FppPermuter \<Rightarrow> bool" where
  "FppPermuter_wf P \<longleftrightarrow>
     1 \<le> m' P \<and> m' P \<le> 32 \<and> mask' P = mask (m' P) \<and> odd (k1' P) \<and> odd (k2' P)"

text \<open>
  What the constructor establishes about the range: it is not empty, and either it is the
  full 32-bit range, or \<open>R'\<close> is its size and fits the power-of-two domain.
\<close>

definition FppPermuter_range_ok :: "FppPermuter \<Rightarrow> bool" where
  "FppPermuter_range_ok P \<longleftrightarrow>
     min_id' P \<le> max_id' P \<and>
     (if full_32bit_range' P
      then min_id' P = 0 \<and> max_id' P = - 1 \<and> m' P = 32 \<and> R' P = 0
      else unat (R' P) = unat (max_id' P) - unat (min_id' P) + 1 \<and> unat (R' P) \<le> 2 ^ m' P)"

section \<open>The vertex store and its asynchronous visits\<close>

text \<open>
  \<^verbatim>\<open>ygm::container::map<uint32_t, VtxInfo>\<close> is a map from vertex ids to records. An
  \<^verbatim>\<open>async_visit\<close> to a key the map does not hold visits a default-constructed record, which
  \<open>lookup_vtx\<close> returns.
\<close>

type_synonym vertex_map = "u32 \<rightharpoonup> VtxInfo"

definition lookup_vtx :: "vertex_map \<Rightarrow> u32 \<Rightarrow> VtxInfo" where
  "lookup_vtx M v = (case M v of None \<Rightarrow> VtxInfo_default | Some info \<Rightarrow> info)"

text \<open>
  A phase of the algorithm is a set of pending events, each addressed to one vertex: the
  visit of \<^verbatim>\<open>local_for_all\<close> to a key and every \<^verbatim>\<open>async_visit\<close> that has been submitted
  and not yet run. A handler runs on the record of its target alone, and returns the new
  record with the visits it submitted. The runtime delivers the pending events one at a
  time in an order of its choice; \<open>step\<close> delivers any one of them. The barrier returns in
  a configuration without pending events.
\<close>

type_synonym 'e handler = "'e \<Rightarrow> u32 \<Rightarrow> VtxInfo \<Rightarrow> VtxInfo \<times> (u32 \<times> 'e) multiset"
type_synonym 'e config = "vertex_map \<times> (u32 \<times> 'e) multiset"

inductive step :: "'e handler \<Rightarrow> 'e config \<Rightarrow> 'e config \<Rightarrow> bool" for h :: "'e handler" where
  deliver:
    "(t, e) \<in># pend \<Longrightarrow> h e t (lookup_vtx M t) = (info', sends) \<Longrightarrow>
     step h (M, pend) (M(t \<mapsto> info'), (pend - {#(t, e)#}) + sends)"

definition barrier :: "'e handler \<Rightarrow> 'e config \<Rightarrow> vertex_map \<Rightarrow> bool" where
  "barrier h c M' \<longleftrightarrow> (step h)\<^sup>*\<^sup>* c (M', {#})"

text \<open>A run under an explicit delivery order; \<open>None\<close> when the order names an event that
  is not pending.\<close>

fun run_schedule :: "'e handler \<Rightarrow> 'e config \<Rightarrow> (u32 \<times> 'e) list \<Rightarrow> 'e config option" where
  "run_schedule h c [] = Some c"
| "run_schedule h c (te # s) =
    (if te \<in># snd c
     then (case h (snd te) (fst te) (lookup_vtx (fst c) (fst te)) of
             (info', sends) \<Rightarrow>
               run_schedule h ((fst c)(fst te \<mapsto> info'), (snd c - {#te#}) + sends) s)
     else None)"

text \<open>The visits a loop \<^verbatim>\<open>for (auto nbr : S) async_visit(nbr, f, args)\<close> submits.\<close>

definition visit_all :: "u32 set \<Rightarrow> 'e \<Rightarrow> (u32 \<times> 'e) multiset" where
  "visit_all S e = image_mset (\<lambda>nbr. (nbr, e)) (mset_set S)"

text \<open>The events a \<^verbatim>\<open>local_for_all\<close> starts with: one visit per key of the map.\<close>

definition local_for_all :: "vertex_map \<Rightarrow> 'e \<Rightarrow> (u32 \<times> 'e) multiset" where
  "local_for_all M e = visit_all (dom M) e"

section \<open>Freeze (prep_unterminated)\<close>

text \<open>
  The body of the \<^verbatim>\<open>for_all\<close> lambda of \<^verbatim>\<open>prep_unterminated\<close> on one record, and whether it
  incremented \<^verbatim>\<open>num_unterminated\<close>. The increment stands before the test of the marks.
  \<^verbatim>\<open>info.comp_id = info.my_marker\<close> widens 32 bits to 64.
\<close>

definition prep_unterminated_visit :: "VtxInfo \<Rightarrow> VtxInfo \<times> nat" where
  "prep_unterminated_visit info =
    (if \<not> active info then (info, 0)
     else if mark_pred info \<and> mark_desc info
       then (info\<lparr>active := False, comp_id := ucast (my_marker info)\<rparr>, 1)
       else (info\<lparr>mark_pred := False, mark_desc := False, my_marker := - 1,
                  my_pivot := - 1, wcc_pivot := - 1\<rparr>, 1))"

text \<open>
  Every rank counts over the keys it owns (\<open>owner\<close> is the partition of the keys over the
  \<open>nranks\<close> ranks), and \<^verbatim>\<open>ygm::sum\<close> adds the counts of all ranks. The counter is a
  \<^verbatim>\<open>size_t\<close>; there are at most \<open>2^32\<close> keys, so it cannot wrap and is a natural number here.
\<close>

definition num_unterminated_local :: "(u32 \<Rightarrow> nat) \<Rightarrow> vertex_map \<Rightarrow> nat \<Rightarrow> nat" where
  "num_unterminated_local owner M r =
    (\<Sum>v \<in> {v \<in> dom M. owner v = r}. snd (prep_unterminated_visit (lookup_vtx M v)))"

definition prep_unterminated :: "(u32 \<Rightarrow> nat) \<Rightarrow> nat \<Rightarrow> vertex_map \<Rightarrow> vertex_map \<times> nat" where
  "prep_unterminated owner nranks M =
    (\<lambda>v. map_option (\<lambda>info. fst (prep_unterminated_visit info)) (M v),
     \<Sum>r < nranks. num_unterminated_local owner M r)"

section \<open>Forward and backward marking (prop_pivots)\<close>

datatype mark_event =
    Prop_pivots_local
  | Comp_pivot_fwd u32 u32
  | Comp_pivot_bwd u32 u32

definition comp_pivot_fwd :: "u32 \<Rightarrow> VtxInfo \<Rightarrow> u32 \<Rightarrow> u32 \<Rightarrow> VtxInfo \<times> (u32 \<times> mark_event) multiset" where
  "comp_pivot_fwd vtx info pivot marker =
    (if \<not> active info \<or> mark_desc info then (info, {#})
     else if pivot = wcc_pivot info
       then (info\<lparr>mark_desc := True, my_marker := marker\<rparr>,
             visit_all (out info) (Comp_pivot_fwd pivot marker))
       else (info, {#}))"

definition comp_pivot_bwd :: "u32 \<Rightarrow> VtxInfo \<Rightarrow> u32 \<Rightarrow> u32 \<Rightarrow> VtxInfo \<times> (u32 \<times> mark_event) multiset" where
  "comp_pivot_bwd vtx info pivot marker =
    (if \<not> active info \<or> mark_pred info then (info, {#})
     else if pivot = wcc_pivot info
       then (info\<lparr>mark_pred := True, my_marker := marker\<rparr>,
             visit_all (in' info) (Comp_pivot_bwd pivot marker))
       else (info, {#}))"

text \<open>The \<^verbatim>\<open>local_for_all\<close> lambda of \<^verbatim>\<open>prop_pivots\<close>: a pivot marks itself both ways and
  starts the two floods.\<close>

definition prop_pivots_local :: "u32 \<Rightarrow> VtxInfo \<Rightarrow> VtxInfo \<times> (u32 \<times> mark_event) multiset" where
  "prop_pivots_local vtx info =
    (if \<not> active info then (info, {#})
     else if wcc_pivot info = my_pivot info
       then (info\<lparr>mark_desc := True, mark_pred := True, my_marker := vtx\<rparr>,
             visit_all (in' info) (Comp_pivot_bwd (wcc_pivot info) vtx)
             + visit_all (out info) (Comp_pivot_fwd (wcc_pivot info) vtx))
       else (info, {#}))"

fun prop_pivots_handler :: "mark_event handler" where
  "prop_pivots_handler Prop_pivots_local vtx info = prop_pivots_local vtx info"
| "prop_pivots_handler (Comp_pivot_fwd pivot marker) vtx info = comp_pivot_fwd vtx info pivot marker"
| "prop_pivots_handler (Comp_pivot_bwd pivot marker) vtx info = comp_pivot_bwd vtx info pivot marker"

definition prop_pivots :: "vertex_map \<Rightarrow> vertex_map \<Rightarrow> bool" where
  "prop_pivots M M' \<longleftrightarrow> barrier prop_pivots_handler (M, local_for_all M Prop_pivots_local) M'"

section \<open>Ingest (create_vertex_map)\<close>

text \<open>
  The two lambdas that \<^verbatim>\<open>create_vertex_map\<close> submits for a parsed line \<^verbatim>\<open>src dst\<close>, after
  \<^verbatim>\<open>src += 1; dst += 1\<close> (which wrap at 32 bits). The edge counter is output only.
\<close>

datatype ingest_event =
    Add_fwd_edge u32
  | Add_reverse_edge u32

definition add_fwd_edge :: "u32 \<Rightarrow> VtxInfo \<Rightarrow> u32 \<Rightarrow> VtxInfo \<times> (u32 \<times> ingest_event) multiset" where
  "add_fwd_edge src info dst = (info\<lparr>out := insert dst (out info)\<rparr>, {#})"

definition add_reverse_edge :: "u32 \<Rightarrow> VtxInfo \<Rightarrow> u32 \<Rightarrow> VtxInfo \<times> (u32 \<times> ingest_event) multiset" where
  "add_reverse_edge dst info src = (info\<lparr>in' := insert src (in' info)\<rparr>, {#})"

fun create_vertex_map_handler :: "ingest_event handler" where
  "create_vertex_map_handler (Add_fwd_edge dst) src info = add_fwd_edge src info dst"
| "create_vertex_map_handler (Add_reverse_edge src) dst info = add_reverse_edge dst info src"

text \<open>
  The visits submitted for the lines of the file that parse as two integers (a line that
  does not is skipped and submits nothing), given as the list of the pairs read.
\<close>

fun create_vertex_map_visits :: "(u32 \<times> u32) list \<Rightarrow> (u32 \<times> ingest_event) multiset" where
  "create_vertex_map_visits [] = {#}"
| "create_vertex_map_visits ((src, dst) # edges) =
     {#(src + 1, Add_fwd_edge (dst + 1)), (dst + 1, Add_reverse_edge (src + 1))#}
     + create_vertex_map_visits edges"

definition create_vertex_map :: "(u32 \<times> u32) list \<Rightarrow> vertex_map \<Rightarrow> vertex_map \<Rightarrow> bool" where
  "create_vertex_map edges M M' \<longleftrightarrow>
     barrier create_vertex_map_handler (M, create_vertex_map_visits edges) M'"

section \<open>Trim (trim_trivial)\<close>

datatype trim_event =
    Trim_trivial_local
  | Trim_vtx u32 bool

text \<open>
  \<^verbatim>\<open>trim_vtx\<close>: for \<open>direction\<close>, true means the sender had no ancestors, false no
  descendants. \<^verbatim>\<open>info.comp_id = vtx\<close> widens 32 bits to 64. The visits are submitted before
  the set they were read from is cleared.
\<close>

definition trim_vtx :: "u32 \<Rightarrow> VtxInfo \<Rightarrow> u32 \<Rightarrow> bool \<Rightarrow> VtxInfo \<times> (u32 \<times> trim_event) multiset" where
  "trim_vtx vtx info sender direction =
    (if \<not> active info then (info, {#})
     else
       let info = (if direction = True then info\<lparr>in' := in' info - {sender}\<rparr> else info);
           info = (if direction = False then info\<lparr>out := out info - {sender}\<rparr> else info)
       in if in' info = {}
          then (info\<lparr>comp_id := ucast vtx, active := False, out := {}\<rparr>,
                visit_all (out info) (Trim_vtx vtx True))
          else if out info = {}
          then (info\<lparr>comp_id := ucast vtx, active := False, in' := {}\<rparr>,
                visit_all (in' info) (Trim_vtx vtx False))
          else (info, {#}))"

text \<open>
  The \<^verbatim>\<open>local_for_all\<close> lambda of \<^verbatim>\<open>trim_trivial\<close>: two tests in sequence, the second on
  the record the first has left.
\<close>

definition trim_trivial_local :: "u32 \<Rightarrow> VtxInfo \<Rightarrow> VtxInfo \<times> (u32 \<times> trim_event) multiset" where
  "trim_trivial_local vtx info =
    (if active info
     then
       (case (if in' info = {}
              then (info\<lparr>comp_id := ucast vtx, active := False, out := {}\<rparr>,
                    visit_all (out info) (Trim_vtx vtx True))
              else (info, {#}))
        of (info1, sends1) \<Rightarrow>
          (if out info1 = {}
           then (info1\<lparr>comp_id := ucast vtx, active := False, in' := {}\<rparr>,
                 sends1 + visit_all (in' info1) (Trim_vtx vtx False))
           else (info1, sends1)))
     else (info, {#}))"

fun trim_trivial_handler :: "trim_event handler" where
  "trim_trivial_handler Trim_trivial_local vtx info = trim_trivial_local vtx info"
| "trim_trivial_handler (Trim_vtx sender direction) vtx info = trim_vtx vtx info sender direction"

definition trim_trivial :: "vertex_map \<Rightarrow> vertex_map \<Rightarrow> bool" where
  "trim_trivial M M' \<longleftrightarrow>
     barrier trim_trivial_handler (M, local_for_all M Trim_trivial_local) M'"

section \<open>Shear (shear_edges)\<close>

datatype shear_event =
    Shear_edges_local
  | Check_and_remove_in u32 bool bool
  | Remove_out u64

text \<open>\<^verbatim>\<open>remove_out\<close> takes the edge as a \<^verbatim>\<open>uint64_t\<close>; \<^verbatim>\<open>erase\<close> narrows it to the key type.\<close>

definition remove_out :: "u32 \<Rightarrow> VtxInfo \<Rightarrow> u64 \<Rightarrow> VtxInfo \<times> (u32 \<times> shear_event) multiset" where
  "remove_out vtx info edge = (info\<lparr>out := out info - {ucast edge}\<rparr>, {#})"

definition check_and_remove_in ::
  "u32 \<Rightarrow> VtxInfo \<Rightarrow> u32 \<Rightarrow> bool \<Rightarrow> bool \<Rightarrow> VtxInfo \<times> (u32 \<times> shear_event) multiset" where
  "check_and_remove_in vtx info sender s_pred s_desc =
    (if mark_pred info \<noteq> s_pred \<or> mark_desc info \<noteq> s_desc
     then (info\<lparr>in' := in' info - {sender}\<rparr>, {#(sender, Remove_out (ucast vtx))#})
     else (info, {#}))"

definition shear_edges_local :: "u32 \<Rightarrow> VtxInfo \<Rightarrow> VtxInfo \<times> (u32 \<times> shear_event) multiset" where
  "shear_edges_local vtx info =
    (if \<not> active info then (info, {#})
     else (info, visit_all (out info) (Check_and_remove_in vtx (mark_pred info) (mark_desc info))))"

fun shear_edges_handler :: "shear_event handler" where
  "shear_edges_handler Shear_edges_local vtx info = shear_edges_local vtx info"
| "shear_edges_handler (Check_and_remove_in sender s_pred s_desc) vtx info =
     check_and_remove_in vtx info sender s_pred s_desc"
| "shear_edges_handler (Remove_out edge) vtx info = remove_out vtx info edge"

definition shear_edges :: "vertex_map \<Rightarrow> vertex_map \<Rightarrow> bool" where
  "shear_edges M M' \<longleftrightarrow>
     barrier shear_edges_handler (M, local_for_all M Shear_edges_local) M'"

section \<open>WCC pivot selection (init_wcc_pivots)\<close>

text \<open>
  The permuter of round \<open>iter\<close>: \<^verbatim>\<open>FppPermuter perm(min, max, 0x9E3779B97F4A7C15ULL + iter)\<close>,
  the sum taken in 64 bits. \<open>perm(v)\<close> is the value its call returns.
\<close>

definition init_wcc_pivots_perm :: "u64 \<Rightarrow> u32 \<Rightarrow> u32 \<Rightarrow> u32 \<Rightarrow> u32" where
  "init_wcc_pivots_perm iter min_vtx max_vtx v =
     the (FppPermuter_call (FppPermuter_new min_vtx max_vtx (0x9E3779B97F4A7C15 + iter)) v)"

text \<open>The first \<^verbatim>\<open>local_for_all\<close>: it submits nothing, and a barrier follows it.\<close>

definition init_wcc_pivots_assign :: "(u32 \<Rightarrow> u32) \<Rightarrow> vertex_map \<Rightarrow> vertex_map" where
  "init_wcc_pivots_assign perm M =
    (\<lambda>vtx. map_option
       (\<lambda>info. if active info
                then info\<lparr>my_pivot := perm vtx, wcc_pivot := perm vtx, my_marker := vtx\<rparr>
                else info)
       (M vtx))"

text \<open>
  The propagation. An entry \<open>(pivot, vtx)\<close> of the work queue, with the pre-barrier callback
  registered for it, is the pending event \<open>Pop_front_and_send pivot\<close> at \<open>vtx\<close>: the callback
  pops an entry and runs the \<^verbatim>\<open>local_visit\<close> lambda on its vertex with its pivot. Every rank
  pops its smallest entry first; here any pending entry may be next, which covers every
  number of ranks and every distribution of the keys.
\<close>

datatype pivot_event =
    Init_wcc_pivots_local
  | Pop_front_and_send u32
  | Recv_and_enqueue u32

definition recv_and_enqueue :: "u32 \<Rightarrow> VtxInfo \<Rightarrow> u32 \<Rightarrow> VtxInfo \<times> (u32 \<times> pivot_event) multiset" where
  "recv_and_enqueue vtx info pivot =
    (if \<not> active info then (info, {#})
     else if pivot < wcc_pivot info
       then (info\<lparr>wcc_pivot := pivot\<rparr>, {#(vtx, Pop_front_and_send pivot)#})
       else (info, {#}))"

definition pop_front_and_send :: "u32 \<Rightarrow> VtxInfo \<Rightarrow> u32 \<Rightarrow> VtxInfo \<times> (u32 \<times> pivot_event) multiset" where
  "pop_front_and_send vtx info queued_pivot =
    (if queued_pivot \<noteq> wcc_pivot info then (info, {#})
     else (info, visit_all (out info) (Recv_and_enqueue (wcc_pivot info))
                 + visit_all (in' info) (Recv_and_enqueue (wcc_pivot info))))"

text \<open>The second \<^verbatim>\<open>local_for_all\<close>: a vertex is queued unless a neighbour's image under
  the permuter is below its \<open>wcc_pivot\<close>; the neighbour's \<open>active\<close> flag is not read.\<close>

definition init_wcc_pivots_local ::
  "(u32 \<Rightarrow> u32) \<Rightarrow> u32 \<Rightarrow> VtxInfo \<Rightarrow> VtxInfo \<times> (u32 \<times> pivot_event) multiset" where
  "init_wcc_pivots_local perm vtx info =
    (if \<not> active info then (info, {#})
     else if \<exists>desc \<in> out info. perm desc < wcc_pivot info then (info, {#})
     else if \<exists>actr \<in> in' info. perm actr < wcc_pivot info then (info, {#})
     else (info, {#(vtx, Pop_front_and_send (my_pivot info))#}))"

fun init_wcc_pivots_handler :: "(u32 \<Rightarrow> u32) \<Rightarrow> pivot_event handler" where
  "init_wcc_pivots_handler perm Init_wcc_pivots_local vtx info = init_wcc_pivots_local perm vtx info"
| "init_wcc_pivots_handler perm (Pop_front_and_send queued_pivot) vtx info =
     pop_front_and_send vtx info queued_pivot"
| "init_wcc_pivots_handler perm (Recv_and_enqueue pivot) vtx info = recv_and_enqueue vtx info pivot"

definition init_wcc_pivots_with :: "(u32 \<Rightarrow> u32) \<Rightarrow> vertex_map \<Rightarrow> vertex_map \<Rightarrow> bool" where
  "init_wcc_pivots_with perm M M' \<longleftrightarrow>
     barrier (init_wcc_pivots_handler perm)
       (init_wcc_pivots_assign perm M,
        local_for_all (init_wcc_pivots_assign perm M) Init_wcc_pivots_local) M'"

definition init_wcc_pivots :: "u64 \<Rightarrow> u32 \<Rightarrow> u32 \<Rightarrow> vertex_map \<Rightarrow> vertex_map \<Rightarrow> bool" where
  "init_wcc_pivots iter min_vtx max_vtx M M' \<longleftrightarrow>
     init_wcc_pivots_with (init_wcc_pivots_perm iter min_vtx max_vtx) M M'"

section \<open>Graph properties of a vertex map\<close>

text \<open>Edge symmetry: \<open>v \<in> u.out\<close> iff \<open>u \<in> v.in\<close>.\<close>

definition edge_symmetric :: "vertex_map \<Rightarrow> bool" where
  "edge_symmetric M \<longleftrightarrow> (\<forall>u v. v \<in> out (lookup_vtx M u) \<longleftrightarrow> u \<in> in' (lookup_vtx M v))"


text \<open>The marking pair of a record.\<close>

definition marks :: "VtxInfo \<Rightarrow> bool \<times> bool" where
  "marks info = (mark_pred info, mark_desc info)"

section \<open>Example states\<close>

text \<open>An active vertex that the marking phase reached from both sides, with marker 1.\<close>

definition both_marked :: VtxInfo where
  "both_marked = VtxInfo_default\<lparr>my_marker := 1, mark_pred := True, mark_desc := True\<rparr>"


definition cycle_tail :: vertex_map where
  "cycle_tail =
    [1 \<mapsto> VtxInfo_default\<lparr>out := {2}, in' := {2}\<rparr>,
     2 \<mapsto> VtxInfo_default\<lparr>out := {1, 3}, in' := {1}\<rparr>,
     3 \<mapsto> VtxInfo_default\<lparr>in' := {2}\<rparr>]"

definition cycle_tail_trimmed :: vertex_map where
  "cycle_tail_trimmed =
    [1 \<mapsto> VtxInfo_default\<lparr>out := {2}, in' := {2}\<rparr>,
     2 \<mapsto> VtxInfo_default\<lparr>out := {1}, in' := {1}\<rparr>,
     3 \<mapsto> VtxInfo_default\<lparr>comp_id := 3, active := False\<rparr>]"

text \<open>The edge list \<^verbatim>\<open>0 0\<close>, \<^verbatim>\<open>0 2\<close>, \<^verbatim>\<open>0 1\<close>, \<^verbatim>\<open>1 2\<close>, \<^verbatim>\<open>2 2\<close>: after the offset the graph
  1->1, 1->3, 1->2, 2->3, 3->3, and the states of round 0 on it (vertex 2 has the smallest
  image and is the pivot).\<close>

definition fork_edges :: "(u32 \<times> u32) list" where
  "fork_edges = [(0, 0), (0, 2), (0, 1), (1, 2), (2, 2)]"

definition fork :: vertex_map where
  "fork =
    [1 \<mapsto> VtxInfo_default\<lparr>out := {1, 2, 3}, in' := {1}\<rparr>,
     2 \<mapsto> VtxInfo_default\<lparr>out := {3}, in' := {1}\<rparr>,
     3 \<mapsto> VtxInfo_default\<lparr>out := {3}, in' := {1, 2, 3}\<rparr>]"

definition fork_pivoted :: vertex_map where
  "fork_pivoted =
    [1 \<mapsto> VtxInfo_default\<lparr>out := {1, 2, 3}, in' := {1}, my_marker := 1, my_pivot := 2,
          wcc_pivot := 1\<rparr>,
     2 \<mapsto> VtxInfo_default\<lparr>out := {3}, in' := {1}, my_marker := 2, my_pivot := 1,
          wcc_pivot := 1\<rparr>,
     3 \<mapsto> VtxInfo_default\<lparr>out := {3}, in' := {1, 2, 3}, my_marker := 3, my_pivot := 3,
          wcc_pivot := 1\<rparr>]"

definition fork_marked :: vertex_map where
  "fork_marked =
    [1 \<mapsto> VtxInfo_default\<lparr>out := {1, 2, 3}, in' := {1}, my_marker := 2, my_pivot := 2,
          wcc_pivot := 1, mark_pred := True\<rparr>,
     2 \<mapsto> VtxInfo_default\<lparr>out := {3}, in' := {1}, my_marker := 2, my_pivot := 1,
          wcc_pivot := 1, mark_pred := True, mark_desc := True\<rparr>,
     3 \<mapsto> VtxInfo_default\<lparr>out := {3}, in' := {1, 2, 3}, my_marker := 2, my_pivot := 3,
          wcc_pivot := 1, mark_desc := True\<rparr>]"

definition fork_frozen :: vertex_map where
  "fork_frozen =
    [1 \<mapsto> VtxInfo_default\<lparr>out := {1, 2, 3}, in' := {1}\<rparr>,
     2 \<mapsto> VtxInfo_default\<lparr>out := {3}, in' := {1}, comp_id := 2, active := False,
          my_marker := 2, my_pivot := 1, wcc_pivot := 1, mark_pred := True,
          mark_desc := True\<rparr>,
     3 \<mapsto> VtxInfo_default\<lparr>out := {3}, in' := {1, 2, 3}\<rparr>]"

definition fork_sheared :: vertex_map where
  "fork_sheared =
    [1 \<mapsto> VtxInfo_default\<lparr>out := {1, 3}, in' := {1}\<rparr>,
     2 \<mapsto> VtxInfo_default\<lparr>out := {3}, in' := {}, comp_id := 2, active := False,
          my_marker := 2, my_pivot := 1, wcc_pivot := 1, mark_pred := True,
          mark_desc := True\<rparr>,
     3 \<mapsto> VtxInfo_default\<lparr>out := {3}, in' := {1, 2, 3}\<rparr>]"


definition relay :: vertex_map where
  "relay =
    [1 \<mapsto> VtxInfo_default\<lparr>out := {1}, in' := {1, 3}\<rparr>,
     2 \<mapsto> VtxInfo_default\<lparr>out := {2, 3}, in' := {2}\<rparr>,
     3 \<mapsto> VtxInfo_default\<lparr>out := {1}, in' := {2}\<rparr>]"

definition relay_pivoted :: vertex_map where
  "relay_pivoted =
    [1 \<mapsto> VtxInfo_default\<lparr>out := {1}, in' := {1, 3}, my_marker := 1, my_pivot := 2,
          wcc_pivot := 1\<rparr>,
     2 \<mapsto> VtxInfo_default\<lparr>out := {2, 3}, in' := {2}, my_marker := 2, my_pivot := 1,
          wcc_pivot := 1\<rparr>,
     3 \<mapsto> VtxInfo_default\<lparr>out := {1}, in' := {2}, my_marker := 3, my_pivot := 3,
          wcc_pivot := 1\<rparr>]"

definition relay_marked :: vertex_map where
  "relay_marked =
    [1 \<mapsto> VtxInfo_default\<lparr>out := {1}, in' := {1, 3}, my_marker := 2, my_pivot := 2,
          wcc_pivot := 1, mark_desc := True\<rparr>,
     2 \<mapsto> VtxInfo_default\<lparr>out := {2, 3}, in' := {2}, my_marker := 2, my_pivot := 1,
          wcc_pivot := 1, mark_pred := True, mark_desc := True\<rparr>,
     3 \<mapsto> VtxInfo_default\<lparr>out := {1}, in' := {2}, my_marker := 2, my_pivot := 3,
          wcc_pivot := 1, mark_desc := True\<rparr>]"

definition relay_frozen :: vertex_map where
  "relay_frozen =
    [1 \<mapsto> VtxInfo_default\<lparr>out := {1}, in' := {1, 3}\<rparr>,
     2 \<mapsto> VtxInfo_default\<lparr>out := {2, 3}, in' := {2}, comp_id := 2, active := False,
          my_marker := 2, my_pivot := 1, wcc_pivot := 1, mark_pred := True,
          mark_desc := True\<rparr>,
     3 \<mapsto> VtxInfo_default\<lparr>out := {1}, in' := {2}\<rparr>]"

definition relay_pivoted1 :: vertex_map where
  "relay_pivoted1 =
    [1 \<mapsto> VtxInfo_default\<lparr>out := {1}, in' := {1, 3}, my_marker := 1, my_pivot := 2,
          wcc_pivot := 2\<rparr>,
     2 \<mapsto> VtxInfo_default\<lparr>out := {2, 3}, in' := {2}, comp_id := 2, active := False,
          my_marker := 2, my_pivot := 1, wcc_pivot := 1, mark_pred := True,
          mark_desc := True\<rparr>,
     3 \<mapsto> VtxInfo_default\<lparr>out := {1}, in' := {2}, my_marker := 3, my_pivot := 3,
          wcc_pivot := 2\<rparr>]"

definition relay_marked1 :: vertex_map where
  "relay_marked1 =
    [1 \<mapsto> VtxInfo_default\<lparr>out := {1}, in' := {1, 3}, my_marker := 1, my_pivot := 2,
          wcc_pivot := 2, mark_pred := True, mark_desc := True\<rparr>,
     2 \<mapsto> VtxInfo_default\<lparr>out := {2, 3}, in' := {2}, comp_id := 2, active := False,
          my_marker := 2, my_pivot := 1, wcc_pivot := 1, mark_pred := True,
          mark_desc := True\<rparr>,
     3 \<mapsto> VtxInfo_default\<lparr>out := {1}, in' := {2}, my_marker := 1, my_pivot := 3,
          wcc_pivot := 2, mark_pred := True\<rparr>]"

definition relay_frozen1 :: vertex_map where
  "relay_frozen1 =
    [1 \<mapsto> VtxInfo_default\<lparr>out := {1}, in' := {1, 3}, comp_id := 1, active := False,
          my_marker := 1, my_pivot := 2, wcc_pivot := 2, mark_pred := True,
          mark_desc := True\<rparr>,
     2 \<mapsto> VtxInfo_default\<lparr>out := {2, 3}, in' := {2}, comp_id := 2, active := False,
          my_marker := 2, my_pivot := 1, wcc_pivot := 1, mark_pred := True,
          mark_desc := True\<rparr>,
     3 \<mapsto> VtxInfo_default\<lparr>out := {1}, in' := {2}\<rparr>]"

definition relay_sheared1 :: vertex_map where
  "relay_sheared1 =
    [1 \<mapsto> VtxInfo_default\<lparr>out := {1}, in' := {1}, comp_id := 1, active := False,
          my_marker := 1, my_pivot := 2, wcc_pivot := 2, mark_pred := True,
          mark_desc := True\<rparr>,
     2 \<mapsto> VtxInfo_default\<lparr>out := {2, 3}, in' := {2}, comp_id := 2, active := False,
          my_marker := 2, my_pivot := 1, wcc_pivot := 1, mark_pred := True,
          mark_desc := True\<rparr>,
     3 \<mapsto> VtxInfo_default\<lparr>out := {}, in' := {2}\<rparr>]"

definition relay_trimmed2 :: vertex_map where
  "relay_trimmed2 =
    [1 \<mapsto> VtxInfo_default\<lparr>out := {1}, in' := {1}, comp_id := 1, active := False,
          my_marker := 1, my_pivot := 2, wcc_pivot := 2, mark_pred := True,
          mark_desc := True\<rparr>,
     2 \<mapsto> VtxInfo_default\<lparr>out := {2, 3}, in' := {2}, comp_id := 2, active := False,
          my_marker := 2, my_pivot := 1, wcc_pivot := 1, mark_pred := True,
          mark_desc := True\<rparr>,
     3 \<mapsto> VtxInfo_default\<lparr>out := {}, in' := {}, comp_id := 3, active := False\<rparr>]"

text \<open>The edge list \<^verbatim>\<open>1 1\<close>, \<^verbatim>\<open>1 0\<close>, \<^verbatim>\<open>0 2\<close>, \<^verbatim>\<open>2 0\<close>: after the offset the graph
  2->2, 2->1, 1->3, 3->1, whose strongly connected components are \<open>{2}\<close> and \<open>{1, 3}\<close>,
  and the states of rounds 0 and 1 on it. Round 0 freezes 2.\<close>

definition loop_cycle_edges :: "(u32 \<times> u32) list" where
  "loop_cycle_edges = [(1, 1), (1, 0), (0, 2), (2, 0)]"

definition loop_cycle :: vertex_map where
  "loop_cycle =
    [1 \<mapsto> VtxInfo_default\<lparr>out := {3}, in' := {2, 3}\<rparr>,
     2 \<mapsto> VtxInfo_default\<lparr>out := {1, 2}, in' := {2}\<rparr>,
     3 \<mapsto> VtxInfo_default\<lparr>out := {1}, in' := {1}\<rparr>]"

definition loop_cycle_pivoted :: vertex_map where
  "loop_cycle_pivoted =
    [1 \<mapsto> VtxInfo_default\<lparr>out := {3}, in' := {2, 3}, my_marker := 1, my_pivot := 2,
          wcc_pivot := 1\<rparr>,
     2 \<mapsto> VtxInfo_default\<lparr>out := {1, 2}, in' := {2}, my_marker := 2, my_pivot := 1,
          wcc_pivot := 1\<rparr>,
     3 \<mapsto> VtxInfo_default\<lparr>out := {1}, in' := {1}, my_marker := 3, my_pivot := 3,
          wcc_pivot := 1\<rparr>]"

definition loop_cycle_marked :: vertex_map where
  "loop_cycle_marked =
    [1 \<mapsto> VtxInfo_default\<lparr>out := {3}, in' := {2, 3}, my_marker := 2, my_pivot := 2,
          wcc_pivot := 1, mark_desc := True\<rparr>,
     2 \<mapsto> VtxInfo_default\<lparr>out := {1, 2}, in' := {2}, my_marker := 2, my_pivot := 1,
          wcc_pivot := 1, mark_pred := True, mark_desc := True\<rparr>,
     3 \<mapsto> VtxInfo_default\<lparr>out := {1}, in' := {1}, my_marker := 2, my_pivot := 3,
          wcc_pivot := 1, mark_desc := True\<rparr>]"

definition loop_cycle_frozen :: vertex_map where
  "loop_cycle_frozen =
    [1 \<mapsto> VtxInfo_default\<lparr>out := {3}, in' := {2, 3}\<rparr>,
     2 \<mapsto> VtxInfo_default\<lparr>out := {1, 2}, in' := {2}, comp_id := 2, active := False,
          my_marker := 2, my_pivot := 1, wcc_pivot := 1, mark_pred := True,
          mark_desc := True\<rparr>,
     3 \<mapsto> VtxInfo_default\<lparr>out := {1}, in' := {1}\<rparr>]"

definition loop_cycle_pivoted1 :: vertex_map where
  "loop_cycle_pivoted1 =
    [1 \<mapsto> VtxInfo_default\<lparr>out := {3}, in' := {2, 3}, my_marker := 1, my_pivot := 2,
          wcc_pivot := 2\<rparr>,
     2 \<mapsto> VtxInfo_default\<lparr>out := {1, 2}, in' := {2}, comp_id := 2, active := False,
          my_marker := 2, my_pivot := 1, wcc_pivot := 1, mark_pred := True,
          mark_desc := True\<rparr>,
     3 \<mapsto> VtxInfo_default\<lparr>out := {1}, in' := {1}, my_marker := 3, my_pivot := 3,
          wcc_pivot := 3\<rparr>]"

definition loop_cycle_marked1 :: vertex_map where
  "loop_cycle_marked1 =
    [1 \<mapsto> VtxInfo_default\<lparr>out := {3}, in' := {2, 3}, my_marker := 1, my_pivot := 2,
          wcc_pivot := 2, mark_pred := True, mark_desc := True\<rparr>,
     2 \<mapsto> VtxInfo_default\<lparr>out := {1, 2}, in' := {2}, comp_id := 2, active := False,
          my_marker := 2, my_pivot := 1, wcc_pivot := 1, mark_pred := True,
          mark_desc := True\<rparr>,
     3 \<mapsto> VtxInfo_default\<lparr>out := {1}, in' := {1}, my_marker := 3, my_pivot := 3,
          wcc_pivot := 3, mark_pred := True, mark_desc := True\<rparr>]"

definition loop_cycle_frozen1 :: vertex_map where
  "loop_cycle_frozen1 =
    [1 \<mapsto> VtxInfo_default\<lparr>out := {3}, in' := {2, 3}, comp_id := 1, active := False,
          my_marker := 1, my_pivot := 2, wcc_pivot := 2, mark_pred := True,
          mark_desc := True\<rparr>,
     2 \<mapsto> VtxInfo_default\<lparr>out := {1, 2}, in' := {2}, comp_id := 2, active := False,
          my_marker := 2, my_pivot := 1, wcc_pivot := 1, mark_pred := True,
          mark_desc := True\<rparr>,
     3 \<mapsto> VtxInfo_default\<lparr>out := {1}, in' := {1}, comp_id := 3, active := False,
          my_marker := 3, my_pivot := 3, wcc_pivot := 3, mark_pred := True,
          mark_desc := True\<rparr>]"

text \<open>The two-cycle with a tail after the trim, through the rest of round 0: vertex 2 is
  the pivot, and both vertices of the cycle are frozen with its marker.\<close>

definition cycle_tail_pivoted :: vertex_map where
  "cycle_tail_pivoted =
    [1 \<mapsto> VtxInfo_default\<lparr>out := {2}, in' := {2}, my_marker := 1, my_pivot := 2,
          wcc_pivot := 1\<rparr>,
     2 \<mapsto> VtxInfo_default\<lparr>out := {1}, in' := {1}, my_marker := 2, my_pivot := 1,
          wcc_pivot := 1\<rparr>,
     3 \<mapsto> VtxInfo_default\<lparr>out := {}, in' := {}, comp_id := 3, active := False\<rparr>]"

definition cycle_tail_marked :: vertex_map where
  "cycle_tail_marked =
    [1 \<mapsto> VtxInfo_default\<lparr>out := {2}, in' := {2}, my_marker := 2, my_pivot := 2,
          wcc_pivot := 1, mark_pred := True, mark_desc := True\<rparr>,
     2 \<mapsto> VtxInfo_default\<lparr>out := {1}, in' := {1}, my_marker := 2, my_pivot := 1,
          wcc_pivot := 1, mark_pred := True, mark_desc := True\<rparr>,
     3 \<mapsto> VtxInfo_default\<lparr>out := {}, in' := {}, comp_id := 3, active := False\<rparr>]"

definition cycle_tail_frozen :: vertex_map where
  "cycle_tail_frozen =
    [1 \<mapsto> VtxInfo_default\<lparr>out := {2}, in' := {2}, comp_id := 2, active := False,
          my_marker := 2, my_pivot := 2, wcc_pivot := 1, mark_pred := True,
          mark_desc := True\<rparr>,
     2 \<mapsto> VtxInfo_default\<lparr>out := {1}, in' := {1}, comp_id := 2, active := False,
          my_marker := 2, my_pivot := 1, wcc_pivot := 1, mark_pred := True,
          mark_desc := True\<rparr>,
     3 \<mapsto> VtxInfo_default\<lparr>out := {}, in' := {}, comp_id := 3, active := False\<rparr>]"

section \<open>Invariants and measures of the phases\<close>

text \<open>The vertex whose reference a trim message erases from the \<open>in\<close> set, and from the
  \<open>out\<close> set, of its target.\<close>

definition trim_erased_in :: "trim_event \<Rightarrow> u32 set" where
  "trim_erased_in e = (case e of Trim_vtx sender True \<Rightarrow> {sender} | _ \<Rightarrow> {})"

definition trim_erased_out :: "trim_event \<Rightarrow> u32 set" where
  "trim_erased_out e = (case e of Trim_vtx sender False \<Rightarrow> {sender} | _ \<Rightarrow> {})"


text \<open>What holds between two deliveries of a shear that starts from the state \<open>M1\<close>.\<close>

definition shear_inv :: "vertex_map \<Rightarrow> shear_event config \<Rightarrow> bool" where
  "shear_inv M1 c \<longleftrightarrow>
     (\<forall>v. active (lookup_vtx (fst c) v) = active (lookup_vtx M1 v)
          \<and> marks (lookup_vtx (fst c) v) = marks (lookup_vtx M1 v)
          \<and> out (lookup_vtx (fst c) v) \<subseteq> out (lookup_vtx M1 v)
          \<and> in' (lookup_vtx (fst c) v) \<subseteq> in' (lookup_vtx M1 v))
   \<and> (\<forall>t s p d. (t, Check_and_remove_in s p d) \<in># snd c \<longrightarrow> (p, d) = marks (lookup_vtx M1 s))
   \<and> (\<forall>t e. (t, Remove_out e) \<in># snd c \<longrightarrow>
          marks (lookup_vtx M1 (ucast e)) \<noteq> marks (lookup_vtx M1 t)
          \<and> t \<notin> in' (lookup_vtx (fst c) (ucast e)))
   \<and> (\<forall>v u. marks (lookup_vtx M1 u) = marks (lookup_vtx M1 v) \<longrightarrow>
          (u \<in> out (lookup_vtx M1 v) \<longrightarrow> u \<in> out (lookup_vtx (fst c) v))
          \<and> (v \<in> in' (lookup_vtx M1 u) \<longrightarrow> v \<in> in' (lookup_vtx (fst c) u)))
   \<and> (\<forall>v u. active (lookup_vtx M1 v) \<and> u \<in> out (lookup_vtx M1 v)
            \<and> marks (lookup_vtx M1 u) \<noteq> marks (lookup_vtx M1 v) \<longrightarrow>
          ((v, Shear_edges_local) \<in># snd c \<and> u \<in> out (lookup_vtx (fst c) v))
          \<or> (u, Check_and_remove_in v (mark_pred (lookup_vtx M1 v)) (mark_desc (lookup_vtx M1 v))) \<in># snd c
          \<or> (v \<notin> in' (lookup_vtx (fst c) u)
              \<and> ((v, Remove_out (ucast u)) \<in># snd c \<or> u \<notin> out (lookup_vtx (fst c) v))))
   \<and> (edge_symmetric M1 \<longrightarrow>
          (\<forall>u v. u \<in> in' (lookup_vtx (fst c) v) \<longrightarrow> v \<in> out (lookup_vtx (fst c) u))
          \<and> (\<forall>u v. v \<in> out (lookup_vtx (fst c) u) \<longrightarrow>
                u \<in> in' (lookup_vtx (fst c) v) \<or> (u, Remove_out (ucast v)) \<in># snd c))"


text \<open>
  The weight of a pending event of shear, marking and pivot selection. A delivery either
  makes progress on the records or replaces the event by events of smaller total weight; a
  loop over a set of 32-bit ids submits at most \<open>2^32\<close> visits.
\<close>

definition shear_weight :: "shear_event \<Rightarrow> nat" where
  "shear_weight e = (case e of Shear_edges_local \<Rightarrow> 2 * 2 ^ 32 + 1
     | Check_and_remove_in s p d \<Rightarrow> 2 | Remove_out edge \<Rightarrow> 1)"



section \<open>Properties\<close>

subsection \<open>The pivot permuter: the power-of-two scramble is injective\<close>

lemma xor_shift_inj:
  fixes a b :: u32
  assumes a: "take_bit m a = a" and b: "take_bit m b = b" and s: "0 < s"
    and eq: "take_bit m (a XOR drop_bit s a) = take_bit m (b XOR drop_bit s b)"
  shows "a = b"
proof -
  have hi: "\<not> bit a n \<and> \<not> bit b n" if "m \<le> n" for n
  proof -
    have "bit (take_bit m a) n = bit a n" "bit (take_bit m b) n = bit b n"
      by (simp_all add: a b)
    with that show ?thesis by (simp add: bit_take_bit_iff)
  qed
  have lo: "(bit a n \<noteq> bit a (n + s)) = (bit b n \<noteq> bit b (n + s))" if "n < m" for n
  proof -
    have "bit (take_bit m (a XOR drop_bit s a)) n = bit (take_bit m (b XOR drop_bit s b)) n"
      by (simp only: eq)
    with that show ?thesis
      by (simp add: bit_take_bit_iff bit_xor_iff bit_drop_bit_eq add.commute del: take_bit_xor)
  qed
  have agree: "bit a n = bit b n" if "m \<le> n + k" for n k
    using that
  proof (induction k arbitrary: n)
    case 0
    then show ?case using hi by simp
  next
    case (Suc k)
    show ?case
    proof (cases "m \<le> n")
      case True
      then show ?thesis using hi by simp
    next
      case False
      then have "n < m" by simp
      moreover have "bit a (n + s) = bit b (n + s)"
        using Suc.prems s by (intro Suc.IH) simp
      ultimately show ?thesis using lo by blast
    qed
  qed
  have "bit a n = bit b n" for n
    using agree [of n m] by simp
  then show ?thesis
    by (rule bit_eqI)
qed

lemma take_bit_eq_uint_mod:
  fixes a b :: u32
  shows "take_bit m a = take_bit m b \<longleftrightarrow> uint a mod 2 ^ m = uint b mod 2 ^ m"
proof -
  have "uint (take_bit m w) = uint w mod 2 ^ m" for w :: u32
  proof -
    have "uint (take_bit m w) = take_bit m (uint w)"
      by (rule unsigned_take_bit_eq)
    also have "\<dots> = uint w mod 2 ^ m"
      by (rule take_bit_eq_mod)
    finally show ?thesis .
  qed
  then show ?thesis
    by (simp only: word_uint_eq_iff [of "take_bit m a"])
qed

lemma uint_mod_pow2_cancel:
  assumes "m \<le> 32"
  shows "(x mod 2 ^ 32) mod 2 ^ m = (x :: int) mod 2 ^ m"
proof -
  have "(2::int) ^ m dvd 2 ^ 32"
    using assms by (rule le_imp_power_dvd)
  then show ?thesis
    by (rule mod_mod_cancel)
qed

lemma odd_mult_inj:
  fixes a b k :: u32
  assumes k: "odd k" and m: "m \<le> 32"
    and eq: "take_bit m (a * k) = take_bit m (b * k)"
  shows "take_bit m a = take_bit m b"
proof -
  have "uint (a * k) mod 2 ^ m = uint (b * k) mod 2 ^ m"
    using eq by (simp only: take_bit_eq_uint_mod)
  then have "(uint a * uint k) mod 2 ^ m = (uint b * uint k) mod 2 ^ m"
    using uint_mod_pow2_cancel [OF m] by (simp add: uint_word_ariths)
  then have "2 ^ m dvd (uint a * uint k - uint b * uint k)"
    by (simp add: mod_eq_dvd_iff)
  then have "2 ^ m dvd (uint a - uint b) * uint k"
    by (simp add: left_diff_distrib)
  moreover have "coprime (2 ^ m) (uint k)"
    using k by (metis coprime_left_2_iff_odd coprime_power_left_iff even_of_int_iff
        word_of_int_uint)
  ultimately have "2 ^ m dvd (uint a - uint b)"
    by (simp add: coprime_dvd_mult_left_iff)
  then have "uint a mod 2 ^ m = uint b mod 2 ^ m"
    by (simp add: mod_eq_dvd_iff)
  then show ?thesis
    by (simp only: take_bit_eq_uint_mod)
qed

lemma add_key_inj:
  fixes a b k :: u32
  assumes m: "m \<le> 32" and eq: "take_bit m (a + k) = take_bit m (b + k)"
  shows "take_bit m a = take_bit m b"
proof -
  have "uint (a + k) mod 2 ^ m = uint (b + k) mod 2 ^ m"
    using eq by (simp only: take_bit_eq_uint_mod)
  then have "(uint a + uint k) mod 2 ^ m = (uint b + uint k) mod 2 ^ m"
    using uint_mod_pow2_cancel [OF m] by (simp add: uint_word_ariths)
  then have "2 ^ m dvd ((uint a + uint k) - (uint b + uint k))"
    by (simp only: mod_eq_dvd_iff)
  then have "2 ^ m dvd (uint a - uint b)"
    by simp
  then have "uint a mod 2 ^ m = uint b mod 2 ^ m"
    by (simp add: mod_eq_dvd_iff)
  then show ?thesis
    by (simp only: take_bit_eq_uint_mod)
qed

lemma xor_key_inj:
  fixes a b k :: u32
  assumes eq: "take_bit m (a XOR k) = take_bit m (b XOR k)"
  shows "take_bit m a = take_bit m b"
  using eq
  by (metis (no_types, lifting) bit.xor_self take_bit_xor word_bw_assocs(3)
    xor.right_neutral)

lemma and_mask_take_bit: "x AND mask n = take_bit n (x :: u32)"
  by (simp add: take_bit_eq_mask)

lemma permute_pow2_unfold:
  assumes "FppPermuter_wf P"
  shows "permute_pow2 P x =
    (let m = m' P;
         s1 = (if m div 2 \<noteq> 0 then m div 2 else 1);
         s2 = (if (m + 1) div 3 \<noteq> 0 then (m + 1) div 3 else 1);
         v0 = take_bit m x;
         v1 = take_bit m (v0 XOR key' P);
         v2 = take_bit m (v1 XOR drop_bit s1 v1);
         v3 = take_bit m (v2 * k1' P);
         v4 = take_bit m (v3 XOR drop_bit s2 v3);
         v5 = take_bit m (v4 * k2' P);
         v6 = take_bit m (v5 XOR drop_bit s1 v5)
     in take_bit m (v6 + key' P))"
proof -
  have "mask' P = mask (m' P)"
    using assms by (simp add: FppPermuter_wf_def)
  then show ?thesis
    unfolding permute_pow2_def mul_masked_def Let_def
    by (simp only: and_mask_take_bit take_bit_take_bit min.idem)
qed

lemma permute_pow2_masked:
  assumes "FppPermuter_wf P"
  shows "take_bit (m' P) (permute_pow2 P x) = permute_pow2 P x"
  by (simp only: permute_pow2_unfold [OF assms] Let_def take_bit_take_bit min.idem)

lemma permute_pow2_inj:
  assumes wf: "FppPermuter_wf P"
    and a: "take_bit (m' P) a = a" and b: "take_bit (m' P) b = b"
    and eq: "permute_pow2 P a = permute_pow2 P b"
  shows "a = b"
proof -
  define m where "m = m' P"
  define s1 where "s1 = (if m div 2 \<noteq> 0 then m div 2 else 1)"
  define s2 where "s2 = (if (m + 1) div 3 \<noteq> 0 then (m + 1) div 3 else 1)"
  define f1 where "f1 = (\<lambda>v :: u32. take_bit m (v XOR key' P))"
  define f2 where "f2 = (\<lambda>v :: u32. take_bit m (v XOR drop_bit s1 v))"
  define f3 where "f3 = (\<lambda>v :: u32. take_bit m (v * k1' P))"
  define f4 where "f4 = (\<lambda>v :: u32. take_bit m (v XOR drop_bit s2 v))"
  define f5 where "f5 = (\<lambda>v :: u32. take_bit m (v * k2' P))"
  define f7 where "f7 = (\<lambda>v :: u32. take_bit m (v + key' P))"
  have m32: "m \<le> 32" and k1: "odd (k1' P)" and k2: "odd (k2' P)"
    using wf by (simp_all add: FppPermuter_wf_def m_def)
  have s1: "0 < s1" and s2: "0 < s2"
    by (simp_all add: s1_def s2_def)
  have tb: "take_bit m (take_bit m v) = take_bit m v" for v :: u32
    by simp
  have pp: "permute_pow2 P x = f7 (f2 (f5 (f4 (f3 (f2 (f1 (take_bit m x)))))))" for x
    by (simp only: permute_pow2_unfold [OF wf] Let_def m_def s1_def s2_def
        f1_def f2_def f3_def f4_def f5_def f7_def)
  have mk: "take_bit m (f1 v) = f1 v" "take_bit m (f2 v) = f2 v" "take_bit m (f3 v) = f3 v"
    "take_bit m (f4 v) = f4 v" "take_bit m (f5 v) = f5 v" for v
    by (simp_all only: f1_def f2_def f3_def f4_def f5_def tb)
  have i1: "u = v" if "f1 u = f1 v" "take_bit m u = u" "take_bit m v = v" for u v
    using xor_key_inj [of m u "key' P" v] that by (simp only: f1_def)
  have i2: "u = v" if "f2 u = f2 v" "take_bit m u = u" "take_bit m v = v" for u v
    using xor_shift_inj [of m u v s1] that s1 by (simp only: f2_def)
  have i3: "u = v" if "f3 u = f3 v" "take_bit m u = u" "take_bit m v = v" for u v
    using odd_mult_inj [OF k1 m32, of u v] that by (simp only: f3_def)
  have i4: "u = v" if "f4 u = f4 v" "take_bit m u = u" "take_bit m v = v" for u v
    using xor_shift_inj [of m u v s2] that s2 by (simp only: f4_def)
  have i5: "u = v" if "f5 u = f5 v" "take_bit m u = u" "take_bit m v = v" for u v
    using odd_mult_inj [OF k2 m32, of u v] that by (simp only: f5_def)
  have i7: "u = v" if "f7 u = f7 v" "take_bit m u = u" "take_bit m v = v" for u v
    using add_key_inj [OF m32, of u "key' P" v] that by (simp only: f7_def)
  from eq have "f7 (f2 (f5 (f4 (f3 (f2 (f1 (take_bit m a))))))) = f7 (f2 (f5 (f4 (f3 (f2 (f1 (take_bit m b)))))))"
    by (simp only: pp)
  then have "f2 (f5 (f4 (f3 (f2 (f1 (take_bit m a)))))) = f2 (f5 (f4 (f3 (f2 (f1 (take_bit m b))))))"
    by (rule i7) (rule mk)+
  then have "f5 (f4 (f3 (f2 (f1 (take_bit m a))))) = f5 (f4 (f3 (f2 (f1 (take_bit m b)))))"
    by (rule i2) (rule mk)+
  then have "f4 (f3 (f2 (f1 (take_bit m a)))) = f4 (f3 (f2 (f1 (take_bit m b))))"
    by (rule i5) (rule mk)+
  then have "f3 (f2 (f1 (take_bit m a))) = f3 (f2 (f1 (take_bit m b)))"
    by (rule i4) (rule mk)+
  then have "f2 (f1 (take_bit m a)) = f2 (f1 (take_bit m b))"
    by (rule i3) (rule mk)+
  then have "f1 (take_bit m a) = f1 (take_bit m b)"
    by (rule i2) (rule mk)+
  then have "take_bit m a = take_bit m b"
    by (rule i1) (rule tb)+
  then show ?thesis
    using a b by (simp only: m_def)
qed

subsection \<open>The pivot permuter: what the constructor establishes\<close>

lemma ceil_log2_loop_ge: "l \<le> ceil_log2_loop v l"
proof (induction v l rule: ceil_log2_loop.induct)
  case (1 v l)
  show ?case
  proof (cases "0 < v")
    case True
    with 1 have "l + 1 \<le> ceil_log2_loop (drop_bit 1 v) (l + 1)" by simp
    with True show ?thesis by (subst ceil_log2_loop.simps) simp
  next
    case False
    then show ?thesis by (subst ceil_log2_loop.simps) simp
  qed
qed

lemma ceil_log2_loop_pos: "0 < v \<Longrightarrow> l < ceil_log2_loop v l"
  using ceil_log2_loop_ge [of "l + 1" "drop_bit 1 v"]
  by (subst ceil_log2_loop.simps) simp

lemma ceil_log2_loop_lower: "unat v < 2 ^ (ceil_log2_loop v l - l)"
proof (induction v l rule: ceil_log2_loop.induct)
  case (1 v l)
  show ?case
  proof (cases "0 < v")
    case True
    define r where "r = ceil_log2_loop (drop_bit 1 v) (l + 1)"
    have r: "ceil_log2_loop v l = r"
      using True by (subst ceil_log2_loop.simps) (simp add: r_def)
    have ge: "l + 1 \<le> r"
      unfolding r_def by (rule ceil_log2_loop_ge)
    from 1 True have "unat (drop_bit 1 v) < 2 ^ (r - (l + 1))"
      by (simp add: r_def)
    then have "unat v div 2 < 2 ^ (r - (l + 1))"
      by (simp add: drop_bit_eq_div unat_div)
    then have "unat v < 2 * 2 ^ (r - (l + 1))"
      by simp
    also have "\<dots> = 2 ^ (r - l)"
      using ge by (metis Suc_diff_le Suc_eq_plus1 diff_Suc_Suc power_Suc)
    finally show ?thesis
      by (simp add: r)
  next
    case False
    then have "v = 0" using word_gt_0 by blast
    then show ?thesis by (subst ceil_log2_loop.simps) simp
  qed
qed

lemma ceil_log2_loop_upper: "unat v < 2 ^ k \<Longrightarrow> ceil_log2_loop v l \<le> l + k"
proof (induction v l arbitrary: k rule: ceil_log2_loop.induct)
  case (1 v l)
  show ?case
  proof (cases "0 < v")
    case True
    then have "unat v \<noteq> 0"
      by (simp add: unat_eq_0 word_neq_0_conv)
    with "1.prems" have "k \<noteq> 0"
      by (cases k) auto
    then obtain j where k: "k = Suc j"
      by (cases k) auto
    from "1.prems" have "unat v div 2 < 2 ^ j"
      by (simp add: k)
    then have "unat (drop_bit 1 v) < 2 ^ j"
      by (simp add: drop_bit_eq_div unat_div)
    with True have "ceil_log2_loop (drop_bit 1 v) (l + 1) \<le> l + 1 + j"
      by (intro "1.IH")
    with True show ?thesis
      by (subst ceil_log2_loop.simps) (simp add: k)
  next
    case False
    then show ?thesis by (subst ceil_log2_loop.simps) simp
  qed
qed

lemma ceil_log2_u64_props:
  fixes R :: u32
  assumes "1 < R"
  shows "1 \<le> ceil_log2_u64 (ucast R)" and "ceil_log2_u64 (ucast R) \<le> 32"
    and "unat R \<le> 2 ^ ceil_log2_u64 (ucast R)"
proof -
  define n :: u64 where "n = ucast R"
  have R32: "unat R < 2 ^ 32"
    using unsigned_less [of R] by simp
  then have "unat R < 2 ^ 64"
    by simp
  then have un: "unat n = unat R"
    by (simp add: n_def unsigned_ucast_eq take_bit_nat_eq_self)
  have R1: "1 < unat R"
    using assms by (simp add: word_less_nat_alt)
  have "n \<noteq> 0"
    using un R1 by (auto simp: unat_eq_0 [symmetric] simp del: unat_eq_0)
  then have "unat (n - 1) = unat n - 1"
    by (rule unat_minus_one)
  then have n1: "unat (n - 1) = unat R - 1"
    by (simp only: un)
  have pos: "0 < n - 1"
    using n1 R1 by (simp add: word_less_nat_alt)
  show "1 \<le> ceil_log2_u64 (ucast R)"
    using ceil_log2_loop_pos [OF pos, of 0] by (simp add: ceil_log2_u64_def n_def)
  from R32 have "unat (n - 1) < 2 ^ 32"
    by (simp add: n1)
  then show "ceil_log2_u64 (ucast R) \<le> 32"
    using ceil_log2_loop_upper [of "n - 1" 32 0] by (simp add: ceil_log2_u64_def n_def)
  have "unat (n - 1) < 2 ^ (ceil_log2_loop (n - 1) 0 - 0)"
    by (rule ceil_log2_loop_lower)
  then have "unat R - 1 < 2 ^ ceil_log2_loop (n - 1) 0"
    by (simp add: n1)
  then have "unat R \<le> 2 ^ ceil_log2_loop (n - 1) 0"
    using R1 by linarith
  then show "unat R \<le> 2 ^ ceil_log2_u64 (ucast R)"
    by (simp only: ceil_log2_u64_def n_def)
qed

lemma FppPermuter_new_min: "min_id' (FppPermuter_new a b seed) = (if b \<le> a then 0 else a)"
  by (simp add: FppPermuter_new_def Let_def)

lemma FppPermuter_new_max: "max_id' (FppPermuter_new a b seed) = (if b \<le> a then 0 else b)"
  by (simp add: FppPermuter_new_def Let_def)

lemma FppPermuter_new_le: "min_id' (FppPermuter_new a b seed) \<le> max_id' (FppPermuter_new a b seed)"
  using linear [of a b] by (auto simp: FppPermuter_new_min FppPermuter_new_max)

lemma FppPermuter_new_full_iff:
  "full_32bit_range' (FppPermuter_new a b seed) \<longleftrightarrow>
     (push_bit 32 1 :: u64) \<le> ucast (max_id' (FppPermuter_new a b seed))
        - ucast (min_id' (FppPermuter_new a b seed)) + 1"
  by (simp add: FppPermuter_new_def Let_def)

lemma FppPermuter_new_R:
  "R' (FppPermuter_new a b seed) =
     (if \<not> full_32bit_range' (FppPermuter_new a b seed)
      then ucast ((ucast (max_id' (FppPermuter_new a b seed)) :: u64)
        - ucast (min_id' (FppPermuter_new a b seed)) + 1) else 0)"
  by (simp add: FppPermuter_new_def Let_def)

lemma FppPermuter_new_m:
  "m' (FppPermuter_new a b seed) =
     (if \<not> full_32bit_range' (FppPermuter_new a b seed)
      then (if R' (FppPermuter_new a b seed) \<le> 1 then 1
            else ceil_log2_u64 (ucast (R' (FppPermuter_new a b seed))))
      else 32)"
  by (simp add: FppPermuter_new_def Let_def)

lemma FppPermuter_new_mask:
  "mask' (FppPermuter_new a b seed) =
     (if \<not> full_32bit_range' (FppPermuter_new a b seed)
      then (if m' (FppPermuter_new a b seed) = 32 then 0xFFFFFFFF
            else push_bit (m' (FppPermuter_new a b seed)) 1 - 1)
      else 0xFFFFFFFF)"
  by (simp add: FppPermuter_new_def Let_def)

lemma FppPermuter_new_odd:
  "odd (k1' (FppPermuter_new a b seed))" "odd (k2' (FppPermuter_new a b seed))"
  by (simp_all add: FppPermuter_new_def Let_def even_or_iff)

lemma unat_ucast_u32_u64: "unat (ucast (x :: u32) :: u64) = unat x"
proof -
  have "unat x < 2 ^ 32"
    using unsigned_less [of x] by simp
  then have "unat x < 2 ^ 64"
    by simp
  then show ?thesis
    by (simp add: unsigned_ucast_eq take_bit_nat_eq_self)
qed

lemma unat_R64:
  fixes mn mx :: u32
  assumes "mn \<le> mx"
  shows "unat ((ucast mx :: u64) - ucast mn + 1) = unat mx - unat mn + 1"
proof -
  have le: "(ucast mn :: u64) \<le> ucast mx"
    using assms by (simp add: word_le_nat_alt unat_ucast_u32_u64)
  have d: "unat ((ucast mx :: u64) - ucast mn) = unat mx - unat mn"
    using unat_sub [OF le] by (simp add: unat_ucast_u32_u64)
  have "unat mx < 2 ^ 32"
    using unsigned_less [of mx] by simp
  then have "unat ((ucast mx :: u64) - ucast mn) + unat (1 :: u64) < 2 ^ LENGTH(64)"
    by (simp add: d)
  then have "unat ((ucast mx :: u64) - ucast mn + 1) = unat ((ucast mx :: u64) - ucast mn) + unat (1 :: u64)"
    by (simp only: unat_add_lem)
  then show ?thesis
    by (simp add: d)
qed

lemma FppPermuter_new_full:
  assumes "full_32bit_range' (FppPermuter_new a b seed)"
  shows "min_id' (FppPermuter_new a b seed) = 0" and "max_id' (FppPermuter_new a b seed) = - 1"
proof -
  define mn where "mn = min_id' (FppPermuter_new a b seed)"
  define mx where "mx = max_id' (FppPermuter_new a b seed)"
  have le: "mn \<le> mx"
    unfolding mn_def mx_def by (rule FppPermuter_new_le)
  have "(push_bit 32 1 :: u64) \<le> (ucast mx :: u64) - ucast mn + 1"
    using assms unfolding mn_def mx_def by (simp only: FppPermuter_new_full_iff)
  then have "unat (push_bit 32 1 :: u64) \<le> unat mx - unat mn + 1"
    by (simp only: word_le_nat_alt unat_R64 [OF le])
  then have "4294967296 \<le> unat mx - unat mn + 1"
    by simp
  moreover have "unat mx < 4294967296"
    using unsigned_less [of mx] by simp
  ultimately have mn0: "unat mn = 0" and mx1: "unat mx = 4294967295"
    by arith+
  have "mn = 0"
    using mn0 by (simp only: unat_eq_0)
  moreover have "unat (- 1 :: u32) = 4294967295"
    by (simp add: unsigned_minus_1_eq_mask mask_eq_exp_minus_1)
  with mx1 have "unat mx = unat (- 1 :: u32)"
    by simp
  then have "mx = - 1"
    by (simp only: word_unat_eq_iff [symmetric])
  ultimately have "mn = 0" and "mx = - 1"
    by blast+
  then show "min_id' (FppPermuter_new a b seed) = 0" and "max_id' (FppPermuter_new a b seed) = - 1"
    by (simp_all only: mn_def mx_def)
qed

lemma FppPermuter_new_not_full:
  assumes nf: "\<not> full_32bit_range' (FppPermuter_new a b seed)"
  shows "unat (R' (FppPermuter_new a b seed))
          = unat (max_id' (FppPermuter_new a b seed)) - unat (min_id' (FppPermuter_new a b seed)) + 1"
    and "unat (R' (FppPermuter_new a b seed)) \<le> 2 ^ m' (FppPermuter_new a b seed)"
proof -
  define P where "P = FppPermuter_new a b seed"
  define R64 where "R64 = (ucast (max_id' P) :: u64) - ucast (min_id' P) + 1"
  have le: "min_id' P \<le> max_id' P"
    unfolding P_def by (rule FppPermuter_new_le)
  have "\<not> (push_bit 32 1 :: u64) \<le> R64"
    using nf [unfolded FppPermuter_new_full_iff] unfolding R64_def P_def .
  then have "unat R64 < unat (push_bit 32 1 :: u64)"
    by (simp only: word_le_nat_alt not_le)
  then have lt: "unat R64 < 2 ^ 32"
    by simp
  have R: "R' P = ucast R64"
    using nf unfolding R64_def P_def by (subst FppPermuter_new_R) simp
  have "unat (ucast R64 :: u32) = take_bit 32 (unat R64)"
    by (simp add: unsigned_ucast_eq)
  also have "\<dots> = unat R64"
    using lt by (simp only: take_bit_nat_eq_self)
  finally have uR: "unat (R' P) = unat R64"
    by (simp only: R)
  have 1: "unat (R' P) = unat (max_id' P) - unat (min_id' P) + 1"
    using unat_R64 [OF le] by (simp only: uR R64_def)
  have m: "m' P = (if R' P \<le> 1 then 1 else ceil_log2_u64 (ucast (R' P)))"
    using nf unfolding P_def by (subst FppPermuter_new_m) simp
  have 2: "unat (R' P) \<le> 2 ^ m' P"
  proof (cases "R' P \<le> 1")
    case True
    then have "unat (R' P) \<le> 1"
      by (simp add: word_le_nat_alt)
    with True show ?thesis
      by (simp add: m)
  next
    case False
    then have "1 < R' P" by (simp add: not_le)
    from ceil_log2_u64_props(3) [OF this] False show ?thesis
      by (simp add: m)
  qed
  from 1 show "unat (R' (FppPermuter_new a b seed))
          = unat (max_id' (FppPermuter_new a b seed)) - unat (min_id' (FppPermuter_new a b seed)) + 1"
    by (simp only: P_def)
  from 2 show "unat (R' (FppPermuter_new a b seed)) \<le> 2 ^ m' (FppPermuter_new a b seed)"
    by (simp only: P_def)
qed

lemma FppPermuter_new_wf: "FppPermuter_wf (FppPermuter_new a b seed)"
proof -
  define P where "P = FppPermuter_new a b seed"
  have k: "odd (k1' P)" "odd (k2' P)"
    unfolding P_def by (rule FppPermuter_new_odd)+
  have mdef: "m' P = (if \<not> full_32bit_range' P
      then (if R' P \<le> 1 then 1 else ceil_log2_u64 (ucast (R' P))) else 32)"
    unfolding P_def by (rule FppPermuter_new_m)
  have m: "1 \<le> m' P \<and> m' P \<le> 32"
  proof (cases "\<not> full_32bit_range' P \<and> \<not> R' P \<le> 1")
    case True
    then have "1 < R' P" by (simp add: not_le)
    from ceil_log2_u64_props(1,2) [OF this] True show ?thesis
      by (simp add: mdef)
  next
    case False
    then show ?thesis
      by (auto simp: mdef)
  qed
  have full32: "full_32bit_range' P \<Longrightarrow> m' P = 32"
    by (simp add: mdef)
  have "mask' P = (if \<not> full_32bit_range' P
      then (if m' P = 32 then 0xFFFFFFFF else push_bit (m' P) 1 - 1) else 0xFFFFFFFF)"
    unfolding P_def by (rule FppPermuter_new_mask)
  also have "\<dots> = (if m' P = 32 then 0xFFFFFFFF else push_bit (m' P) 1 - 1)"
    using full32 by simp
  also have "\<dots> = mask (m' P)"
    by (simp add: mask_eq_exp_minus_1)
  finally show ?thesis
    using k m by (simp add: FppPermuter_wf_def P_def)
qed

subsection \<open>The pivot permuter: cycle walking\<close>

lemma permute_pow2_funpow_masked:
  assumes wf: "FppPermuter_wf P" and x: "take_bit (m' P) x = x"
  shows "take_bit (m' P) ((permute_pow2 P ^^ n) x) = (permute_pow2 P ^^ n) x"
proof (cases n)
  case 0
  have "(permute_pow2 P ^^ 0) x = x"
    by simp
  with x show ?thesis
    unfolding 0 by (simp only:)
next
  case (Suc k)
  have "(permute_pow2 P ^^ Suc k) x = permute_pow2 P ((permute_pow2 P ^^ k) x)"
    by simp
  with permute_pow2_masked [OF wf, of "(permute_pow2 P ^^ k) x"] show ?thesis
    unfolding Suc by (simp only:)
qed

lemma permute_pow2_funpow_inj:
  assumes wf: "FppPermuter_wf P"
    and "take_bit (m' P) a = a" and "take_bit (m' P) b = b"
    and "(permute_pow2 P ^^ n) a = (permute_pow2 P ^^ n) b"
  shows "a = b"
  using assms(2-)
proof (induction n)
  case 0
  from "0.prems"(3) show ?case by simp
next
  case (Suc n)
  from Suc.prems(3)
  have eq: "permute_pow2 P ((permute_pow2 P ^^ n) a) = permute_pow2 P ((permute_pow2 P ^^ n) b)"
    by simp
  have "(permute_pow2 P ^^ n) a = (permute_pow2 P ^^ n) b"
    using wf permute_pow2_funpow_masked [OF wf Suc.prems(1)]
      permute_pow2_funpow_masked [OF wf Suc.prems(2)] eq
    by (rule permute_pow2_inj)
  with Suc.prems(1,2) show ?case by (rule Suc.IH)
qed

lemma permute_pow2_returns:
  assumes wf: "FppPermuter_wf P" and x: "take_bit (m' P) x = x"
  shows "\<exists>n. (permute_pow2 P ^^ Suc n) x = x"
proof -
  define g where "g = (\<lambda>i. (permute_pow2 P ^^ i) x)"
  have "\<not> inj g"
  proof
    assume "inj g"
    moreover have "finite (range g)"
      by simp
    ultimately have "finite (UNIV :: nat set)"
      by (rule finite_imageD [rotated])
    then show False by simp
  qed
  then obtain i j where ij: "g i = g j" "i \<noteq> j"
    by (auto simp: inj_on_def)
  have *: "\<exists>n. (permute_pow2 P ^^ Suc n) x = x" if "g i = g j" "i < j" for i j
  proof -
    from less_imp_Suc_add [OF that(2)] obtain d where d: "j = i + Suc d"
      by auto
    have "(permute_pow2 P ^^ j) x = (permute_pow2 P ^^ i) ((permute_pow2 P ^^ Suc d) x)"
      unfolding d by (simp only: funpow_add o_apply)
    with that(1) have "(permute_pow2 P ^^ i) x = (permute_pow2 P ^^ i) ((permute_pow2 P ^^ Suc d) x)"
      by (simp only: g_def)
    with x permute_pow2_funpow_masked [OF wf x, of "Suc d"]
    have "x = (permute_pow2 P ^^ Suc d) x"
      by (rule permute_pow2_funpow_inj [OF wf])
    then have "(permute_pow2 P ^^ Suc d) x = x"
      by (rule sym)
    then show ?thesis by (rule exI)
  qed
  from ij show ?thesis
    using * [of i j] * [of j i] by (cases "i < j") auto
qed

lemma fpp_permute_in_range_walk:
  assumes "\<forall>k<n. R' P \<le> (permute_pow2 P ^^ Suc k) x"
    and "\<not> R' P \<le> (permute_pow2 P ^^ Suc n) x"
  shows "fpp_permute_in_range P x = Some ((permute_pow2 P ^^ Suc n) x)"
  using assms
proof (induction n arbitrary: x)
  case 0
  then show ?case
    by (subst fpp_permute_in_range.simps) simp
next
  case (Suc n)
  have shift: "(permute_pow2 P ^^ Suc k) (permute_pow2 P x) = (permute_pow2 P ^^ Suc (Suc k)) x" for k
    by (simp add: funpow_swap1)
  from Suc.prems(1) have "R' P \<le> (permute_pow2 P ^^ Suc 0) x"
    by blast
  then have first: "R' P \<le> permute_pow2 P x"
    by simp
  have "\<forall>k<n. R' P \<le> (permute_pow2 P ^^ Suc k) (permute_pow2 P x)"
  proof (intro allI impI)
    fix k assume "k < n"
    then have "Suc k < Suc n" by simp
    with Suc.prems(1) have "R' P \<le> (permute_pow2 P ^^ Suc (Suc k)) x"
      by blast
    then show "R' P \<le> (permute_pow2 P ^^ Suc k) (permute_pow2 P x)"
      by (simp only: shift)
  qed
  moreover have "\<not> R' P \<le> (permute_pow2 P ^^ Suc n) (permute_pow2 P x)"
    unfolding shift by (rule Suc.prems(2))
  ultimately have "fpp_permute_in_range P (permute_pow2 P x)
      = Some ((permute_pow2 P ^^ Suc n) (permute_pow2 P x))"
    by (rule Suc.IH)
  then have "fpp_permute_in_range P (permute_pow2 P x) = Some ((permute_pow2 P ^^ Suc (Suc n)) x)"
    by (simp only: shift)
  then show ?case
    using first by (subst fpp_permute_in_range.simps) (simp only: Let_def if_True)
qed

lemma fpp_permute_in_range_terminates:
  assumes wf: "FppPermuter_wf P" and x: "take_bit (m' P) x = x" and xR: "x < R' P"
  shows "\<exists>n. fpp_permute_in_range P x = Some ((permute_pow2 P ^^ Suc n) x)
            \<and> (permute_pow2 P ^^ Suc n) x < R' P
            \<and> (\<forall>k<n. R' P \<le> (permute_pow2 P ^^ Suc k) x)"
proof -
  define Q where "Q = (\<lambda>n. (permute_pow2 P ^^ Suc n) x < R' P)"
  from permute_pow2_returns [OF wf x] obtain n0 where "(permute_pow2 P ^^ Suc n0) x = x"
    by blast
  with xR have "Q n0"
    by (simp only: Q_def)
  then have "\<exists>n. Q n" by (rule exI)
  then have "\<exists>n. Q n \<and> (\<forall>k<n. \<not> Q k)"
    by (simp only: exists_least_iff [of Q])
  then obtain n where n: "Q n" and least: "\<forall>k<n. \<not> Q k"
    by blast
  have 1: "\<not> R' P \<le> (permute_pow2 P ^^ Suc n) x"
    using n by (simp only: Q_def not_le)
  have 2: "\<forall>k<n. R' P \<le> (permute_pow2 P ^^ Suc k) x"
    using least by (simp only: Q_def not_less)
  have "fpp_permute_in_range P x = Some ((permute_pow2 P ^^ Suc n) x)"
    using 2 1 by (rule fpp_permute_in_range_walk)
  with n 2 show ?thesis
    unfolding Q_def by blast
qed

lemma FppPermuter_new_range_ok: "FppPermuter_range_ok (FppPermuter_new a b seed)"
proof (cases "full_32bit_range' (FppPermuter_new a b seed)")
  case True
  have "m' (FppPermuter_new a b seed) = 32"
    using True by (subst FppPermuter_new_m) simp
  moreover have "R' (FppPermuter_new a b seed) = 0"
    using True by (subst FppPermuter_new_R) simp
  ultimately show ?thesis
    unfolding FppPermuter_range_ok_def
    using True FppPermuter_new_full [OF True] FppPermuter_new_le [of a b seed]
    by simp
next
  case False
  show ?thesis
    unfolding FppPermuter_range_ok_def
    using False FppPermuter_new_not_full [OF False] FppPermuter_new_le [of a b seed]
    by simp
qed

lemma take_bit_self_of_less:
  fixes x :: u32
  assumes "unat x < 2 ^ n"
  shows "take_bit n x = x"
proof -
  have "unat (take_bit n x) = take_bit n (unat x)"
    by (rule unsigned_take_bit_eq)
  also have "\<dots> = unat x"
    using assms by (simp only: take_bit_nat_eq_self)
  finally show ?thesis
    by (simp only: word_unat_eq_iff [symmetric])
qed

lemma below_R_masked:
  assumes "unat (R' P) \<le> 2 ^ m' P" and "x < R' P"
  shows "take_bit (m' P) x = x"
proof -
  from assms(2) have "unat x < unat (R' P)"
    by (simp only: word_less_nat_alt)
  with assms(1) have "unat x < 2 ^ m' P"
    by (rule less_le_trans [rotated])
  then show ?thesis
    by (rule take_bit_self_of_less)
qed

lemma fpp_walk_meet:
  assumes wf: "FppPermuter_wf P"
    and x: "take_bit (m' P) x = x" and y: "take_bit (m' P) y = y"
    and xR: "x < R' P"
    and eq: "(permute_pow2 P ^^ Suc n) x = (permute_pow2 P ^^ Suc k) y"
    and nk: "n \<le> k"
    and least: "\<forall>j<k. R' P \<le> (permute_pow2 P ^^ Suc j) y"
  shows "x = y"
proof -
  from nk obtain d where d: "k = n + d"
    using le_Suc_ex by blast
  have "(permute_pow2 P ^^ Suc k) y = (permute_pow2 P ^^ Suc n) ((permute_pow2 P ^^ d) y)"
  proof -
    have "Suc k = Suc n + d" by (simp add: d)
    then show ?thesis by (simp only: funpow_add o_apply)
  qed
  with eq have "(permute_pow2 P ^^ Suc n) x = (permute_pow2 P ^^ Suc n) ((permute_pow2 P ^^ d) y)"
    by (simp only:)
  with wf x permute_pow2_funpow_masked [OF wf y, of d]
  have xd: "x = (permute_pow2 P ^^ d) y"
    by (rule permute_pow2_funpow_inj)
  show ?thesis
  proof (cases d)
    case 0
    with xd show ?thesis by simp
  next
    case (Suc j)
    then have "j < k" by (simp add: d)
    with least have "R' P \<le> (permute_pow2 P ^^ Suc j) y" by blast
    then have "R' P \<le> x" by (simp only: xd Suc)
    with xR show ?thesis by simp
  qed
qed

lemma fpp_permute_in_range_inj:
  assumes wf: "FppPermuter_wf P"
    and x: "take_bit (m' P) x = x" and y: "take_bit (m' P) y = y"
    and xR: "x < R' P" and yR: "y < R' P"
    and eq: "fpp_permute_in_range P x = fpp_permute_in_range P y"
  shows "x = y"
proof -
  from fpp_permute_in_range_terminates [OF wf x xR] obtain n where
    n: "fpp_permute_in_range P x = Some ((permute_pow2 P ^^ Suc n) x)"
    and ln: "\<forall>j<n. R' P \<le> (permute_pow2 P ^^ Suc j) x"
    by blast
  from fpp_permute_in_range_terminates [OF wf y yR] obtain k where
    k: "fpp_permute_in_range P y = Some ((permute_pow2 P ^^ Suc k) y)"
    and lk: "\<forall>j<k. R' P \<le> (permute_pow2 P ^^ Suc j) y"
    by blast
  from eq n k have e: "(permute_pow2 P ^^ Suc n) x = (permute_pow2 P ^^ Suc k) y"
    by (simp only: option.inject)
  show ?thesis
  proof (cases "n \<le> k")
    case True
    from wf x y xR e True lk show ?thesis by (rule fpp_walk_meet)
  next
    case False
    then have "k \<le> n" by simp
    from wf y x yR e [symmetric] this ln have "y = x" by (rule fpp_walk_meet)
    then show ?thesis by (rule sym)
  qed
qed

lemma FppPermuter_call_outside:
  "id' < min_id' P \<or> max_id' P < id' \<Longrightarrow> FppPermuter_call P id' = Some id'"
  by (simp add: FppPermuter_call_def)

lemma offset_below_R:
  fixes mn mx x R :: u32
  assumes "mn \<le> x" and "x \<le> mx" and "unat R = unat mx - unat mn + 1"
  shows "x - mn < R"
proof -
  have "unat (x - mn) = unat x - unat mn"
    using assms(1) by (rule unat_sub)
  moreover have "unat mn \<le> unat x" "unat x \<le> unat mx"
    using assms(1,2) by (simp_all only: word_le_nat_alt)
  ultimately have "unat (x - mn) < unat R"
    using assms(3) by linarith
  then show ?thesis
    by (simp only: word_less_nat_alt)
qed

lemma add_offset_in_range:
  fixes mn mx y R :: u32
  assumes "mn \<le> mx" and "y < R" and "unat R = unat mx - unat mn + 1"
  shows "mn \<le> y + mn" and "y + mn \<le> mx" and "y + mn - mn = y"
proof -
  have le: "unat mn \<le> unat mx"
    using assms(1) by (simp only: word_le_nat_alt)
  have "unat y < unat R"
    using assms(2) by (simp only: word_less_nat_alt)
  with assms(3) le have bound: "unat y + unat mn \<le> unat mx"
    by linarith
  have "unat mx < 2 ^ LENGTH(32)"
    by (rule unsigned_less)
  with bound have "unat y + unat mn < 2 ^ LENGTH(32)"
    by linarith
  then have sum: "unat (y + mn) = unat y + unat mn"
    by (simp only: unat_add_lem)
  show "mn \<le> y + mn"
    by (simp only: word_le_nat_alt sum)
  show "y + mn \<le> mx"
    using bound by (simp only: word_le_nat_alt sum)
  show "y + mn - mn = y"
    by simp
qed

lemma FppPermuter_call_inside:
  assumes wf: "FppPermuter_wf P" and ok: "FppPermuter_range_ok P"
    and lo: "min_id' P \<le> x" and hi: "x \<le> max_id' P"
  shows "\<exists>y. FppPermuter_call P x = Some y \<and> min_id' P \<le> y \<and> y \<le> max_id' P"
proof (cases "full_32bit_range' P")
  case True
  with ok have "min_id' P = 0" "max_id' P = - 1"
    by (simp_all add: FppPermuter_range_ok_def)
  then show ?thesis
    by (simp add: FppPermuter_call_def True)
next
  case False
  with ok have le: "min_id' P \<le> max_id' P"
    and R: "unat (R' P) = unat (max_id' P) - unat (min_id' P) + 1"
    and Rm: "unat (R' P) \<le> 2 ^ m' P"
    by (simp_all add: FppPermuter_range_ok_def)
  have xR: "x - min_id' P < R' P"
    using lo hi R by (rule offset_below_R)
  from fpp_permute_in_range_terminates [OF wf below_R_masked [OF Rm xR] xR]
  obtain y where y: "fpp_permute_in_range P (x - min_id' P) = Some y" and yR: "y < R' P"
    by blast
  have "\<not> (x < min_id' P \<or> max_id' P < x)"
    using lo hi by (simp add: not_less)
  then have "FppPermuter_call P x = Some (y + min_id' P)"
    using False y by (simp add: FppPermuter_call_def)
  with add_offset_in_range(1,2) [OF le yR R] show ?thesis
    by blast
qed

lemma FppPermuter_call_inj:
  assumes wf: "FppPermuter_wf P" and ok: "FppPermuter_range_ok P"
    and x: "min_id' P \<le> x" "x \<le> max_id' P"
    and y: "min_id' P \<le> y" "y \<le> max_id' P"
    and eq: "FppPermuter_call P x = FppPermuter_call P y"
  shows "x = y"
proof (cases "full_32bit_range' P")
  case True
  with ok have mn: "min_id' P = 0" and mx: "max_id' P = - 1" and m: "m' P = 32"
    by (simp_all add: FppPermuter_range_ok_def)
  from eq have "permute_pow2 P x = permute_pow2 P y"
    by (simp add: FppPermuter_call_def True mn mx)
  moreover have "take_bit (m' P) z = z" for z :: u32
    unfolding m by (rule take_bit_self_of_less) (use unsigned_less [of z] in simp)
  ultimately show ?thesis
    using wf by (intro permute_pow2_inj [of P x y])
next
  case False
  with ok have le: "min_id' P \<le> max_id' P"
    and R: "unat (R' P) = unat (max_id' P) - unat (min_id' P) + 1"
    and Rm: "unat (R' P) \<le> 2 ^ m' P"
    by (simp_all add: FppPermuter_range_ok_def)
  have xR: "x - min_id' P < R' P"
    using x R by (rule offset_below_R)
  have yR: "y - min_id' P < R' P"
    using y R by (rule offset_below_R)
  have nx: "\<not> (x < min_id' P \<or> max_id' P < x)" and ny: "\<not> (y < min_id' P \<or> max_id' P < y)"
    using x y by (simp_all add: not_less)
  from eq have "map_option (\<lambda>v. v + min_id' P) (fpp_permute_in_range P (x - min_id' P))
      = map_option (\<lambda>v. v + min_id' P) (fpp_permute_in_range P (y - min_id' P))"
    using False nx ny by (simp add: FppPermuter_call_def)
  moreover have "inj (\<lambda>v. v + min_id' P)"
    by (simp add: inj_on_def)
  ultimately have "fpp_permute_in_range P (x - min_id' P) = fpp_permute_in_range P (y - min_id' P)"
    by (simp add: option.inj_map inj_eq)
  with wf below_R_masked [OF Rm xR] below_R_masked [OF Rm yR] xR yR
  have "x - min_id' P = y - min_id' P"
    by (rule fpp_permute_in_range_inj)
  then show ?thesis
    by simp
qed

lemma FppPermuter_call_bij:
  assumes wf: "FppPermuter_wf P" and ok: "FppPermuter_range_ok P"
  shows "inj_on (FppPermuter_call P) {min_id' P..max_id' P}"
    and "FppPermuter_call P ` {min_id' P..max_id' P} = Some ` {min_id' P..max_id' P}"
proof -
  define A where "A = {min_id' P..max_id' P}"
  define g where "g = (\<lambda>x. the (FppPermuter_call P x))"
  have some: "FppPermuter_call P x = Some (g x) \<and> g x \<in> A" if "x \<in> A" for x
    using FppPermuter_call_inside [OF wf ok, of x] that by (auto simp: A_def g_def)
  show inj: "inj_on (FppPermuter_call P) {min_id' P..max_id' P}"
    using FppPermuter_call_inj [OF wf ok] by (auto simp: inj_on_def)
  have "inj_on g A"
    using inj some unfolding A_def [symmetric] inj_on_def by metis
  moreover have "g ` A \<subseteq> A"
    using some by blast
  ultimately have "g ` A = A"
    by (intro endo_inj_surj) simp_all
  moreover have "FppPermuter_call P ` A = Some ` (g ` A)"
    using some by (force simp: image_iff)
  ultimately show "FppPermuter_call P ` {min_id' P..max_id' P} = Some ` {min_id' P..max_id' P}"
    by (simp only: A_def)
qed

text \<open>
  Claim C2. For every seed and every range \<open>[a, b]\<close> the permuter built for it returns a
  value on every input; restricted to \<open>[a, b]\<close> it is injective and its image is exactly
  \<open>[a, b]\<close>, so it is a bijection of \<open>[a, b]\<close> onto itself; and every \<open>x\<close> outside \<open>[a, b]\<close>
  is returned unchanged. (For \<open>b \<le> a\<close> the constructor makes the permuter the identity.)
\<close>

theorem FppPermuter_bijection:
  "inj_on (FppPermuter_call (FppPermuter_new a b seed)) {a..b}
   \<and> FppPermuter_call (FppPermuter_new a b seed) ` {a..b} = Some ` {a..b}
   \<and> (\<forall>x. x \<notin> {a..b} \<longrightarrow> FppPermuter_call (FppPermuter_new a b seed) x = Some x)"
proof -
  define P where "P = FppPermuter_new a b seed"
  have wf: "FppPermuter_wf P" and ok: "FppPermuter_range_ok P"
    unfolding P_def by (rule FppPermuter_new_wf, rule FppPermuter_new_range_ok)
  note bij = FppPermuter_call_bij [OF wf ok]
  have out: "FppPermuter_call P x = Some x" if "x \<notin> {min_id' P..max_id' P}" for x
    using that by (intro FppPermuter_call_outside) (auto simp: not_le)
  show ?thesis
  proof (cases "b \<le> a")
    case False
    then have "min_id' P = a" "max_id' P = b"
      by (simp_all add: P_def FppPermuter_new_min FppPermuter_new_max)
    with bij out show ?thesis
      unfolding P_def by simp
  next
    case True
    then have mm: "min_id' P = 0" "max_id' P = 0"
      by (simp_all add: P_def FppPermuter_new_min FppPermuter_new_max)
    from FppPermuter_call_inside [OF wf ok, of 0] have "FppPermuter_call P 0 = Some 0"
      by (auto simp: mm)
    with out have "FppPermuter_call P x = Some x" for x
      by (cases "x = 0") (simp_all add: mm)
    then have "FppPermuter_call P = Some"
      by (rule ext)
    then show ?thesis
      unfolding P_def by simp
  qed
qed

theorem FppPermuter_bijection_witness:
  "FppPermuter_call (FppPermuter_new 0 9 42) ` {0..9} = Some ` {0..9}
   \<and> inj_on (FppPermuter_call (FppPermuter_new 0 9 42)) {0..9}
   \<and> (10 :: u32) \<notin> {0..9}
   \<and> FppPermuter_call (FppPermuter_new 0 9 42) 10 = Some 10
   \<and> FppPermuter_call (FppPermuter_new 0 9 42) 0 = Some 9"
proof -
  have "(10 :: u32) \<notin> {0..9}"
    by simp
  moreover have "FppPermuter_call (FppPermuter_new 0 9 42) 0 = Some 9"
    by code_simp
  ultimately show ?thesis
    using FppPermuter_bijection [of 0 9 42] by blast
qed

text \<open>
  Claim C9. For every \<open>x\<close> below \<open>R\<close> the cycle-walking loop returns: some positive number
  of applications of the power-of-two bijection to \<open>x\<close> gives a value below \<open>R\<close>, the loop
  returns the first such value, and the permuter, called on \<open>x + min_id\<close>, returns that value
  plus \<open>min_id\<close>.
\<close>

theorem fpp_permute_in_range_cycle_walk:
  assumes "x < R' (FppPermuter_new a b seed)"
  shows "\<exists>n. fpp_permute_in_range (FppPermuter_new a b seed) x
                = Some ((permute_pow2 (FppPermuter_new a b seed) ^^ Suc n) x)
            \<and> (permute_pow2 (FppPermuter_new a b seed) ^^ Suc n) x < R' (FppPermuter_new a b seed)
            \<and> (\<forall>k<n. R' (FppPermuter_new a b seed)
                  \<le> (permute_pow2 (FppPermuter_new a b seed) ^^ Suc k) x)
            \<and> FppPermuter_call (FppPermuter_new a b seed) (x + min_id' (FppPermuter_new a b seed))
                = Some ((permute_pow2 (FppPermuter_new a b seed) ^^ Suc n) x
                        + min_id' (FppPermuter_new a b seed))"
proof -
  define P where "P = FppPermuter_new a b seed"
  have wf: "FppPermuter_wf P" and ok: "FppPermuter_range_ok P"
    unfolding P_def by (rule FppPermuter_new_wf, rule FppPermuter_new_range_ok)
  have xR: "x < R' P"
    using assms by (simp only: P_def)
  have nf: "\<not> full_32bit_range' P"
  proof
    assume "full_32bit_range' P"
    with ok have "R' P = 0" by (simp add: FppPermuter_range_ok_def)
    with xR show False by simp
  qed
  with ok have le: "min_id' P \<le> max_id' P"
    and R: "unat (R' P) = unat (max_id' P) - unat (min_id' P) + 1"
    and Rm: "unat (R' P) \<le> 2 ^ m' P"
    by (simp_all add: FppPermuter_range_ok_def)
  from fpp_permute_in_range_terminates [OF wf below_R_masked [OF Rm xR] xR]
  obtain n where n: "fpp_permute_in_range P x = Some ((permute_pow2 P ^^ Suc n) x)"
    and nR: "(permute_pow2 P ^^ Suc n) x < R' P"
    and least: "\<forall>k<n. R' P \<le> (permute_pow2 P ^^ Suc k) x"
    by blast
  have "\<not> (x + min_id' P < min_id' P \<or> max_id' P < x + min_id' P)"
    using add_offset_in_range(1,2) [OF le xR R] by (simp add: not_less)
  then have "FppPermuter_call P (x + min_id' P) = Some ((permute_pow2 P ^^ Suc n) x + min_id' P)"
    using nf n by (simp add: FppPermuter_call_def)
  with n nR least show ?thesis
    unfolding P_def by blast
qed

text \<open>
  At the range \<open>[5, 14]\<close> (\<open>R = 10\<close>, four bits) and \<open>x = 6\<close> the loop walks
  6, 10, 12, 11, 15, 4: four values outside the range are passed before 4 is returned, and
  the permuter maps 11 to 9.
\<close>

theorem fpp_permute_in_range_cycle_walk_witness:
  "(6 :: u32) < R' (FppPermuter_new 5 14 42)
   \<and> (\<exists>n. fpp_permute_in_range (FppPermuter_new 5 14 42) 6
                = Some ((permute_pow2 (FppPermuter_new 5 14 42) ^^ Suc n) 6)
            \<and> (permute_pow2 (FppPermuter_new 5 14 42) ^^ Suc n) 6 < R' (FppPermuter_new 5 14 42)
            \<and> FppPermuter_call (FppPermuter_new 5 14 42) (6 + min_id' (FppPermuter_new 5 14 42))
                = Some ((permute_pow2 (FppPermuter_new 5 14 42) ^^ Suc n) 6
                        + min_id' (FppPermuter_new 5 14 42)))
   \<and> R' (FppPermuter_new 5 14 42) = 10
   \<and> min_id' (FppPermuter_new 5 14 42) = 5
   \<and> permute_pow2 (FppPermuter_new 5 14 42) 6 = 10
   \<and> permute_pow2 (FppPermuter_new 5 14 42) 10 = 12
   \<and> permute_pow2 (FppPermuter_new 5 14 42) 12 = 11
   \<and> permute_pow2 (FppPermuter_new 5 14 42) 11 = 15
   \<and> permute_pow2 (FppPermuter_new 5 14 42) 15 = 4
   \<and> fpp_permute_in_range (FppPermuter_new 5 14 42) 6 = Some 4
   \<and> FppPermuter_call (FppPermuter_new 5 14 42) 11 = Some 9"
proof -
  have h: "(6 :: u32) < R' (FppPermuter_new 5 14 42)"
    by code_simp
  moreover have "R' (FppPermuter_new 5 14 42) = 10" "min_id' (FppPermuter_new 5 14 42) = 5"
    by code_simp+
  moreover have "permute_pow2 (FppPermuter_new 5 14 42) 6 = 10"
    "permute_pow2 (FppPermuter_new 5 14 42) 10 = 12"
    "permute_pow2 (FppPermuter_new 5 14 42) 12 = 11"
    "permute_pow2 (FppPermuter_new 5 14 42) 11 = 15"
    "permute_pow2 (FppPermuter_new 5 14 42) 15 = 4"
    by code_simp+
  moreover have "fpp_permute_in_range (FppPermuter_new 5 14 42) 6 = Some 4"
    by code_simp
  moreover have "FppPermuter_call (FppPermuter_new 5 14 42) 11 = Some 9"
    by code_simp
  ultimately show ?thesis
    using fpp_permute_in_range_cycle_walk [OF h] by blast
qed

subsection \<open>Serialization\<close>

text \<open>
  Claim C10. Saving a vertex record and loading the archive into a fresh (default
  constructed) record gives back \<open>out\<close>, \<open>in\<close>, \<open>comp_id\<close>, \<open>active\<close>, \<open>my_pivot\<close>,
  \<open>mark_pred\<close> and \<open>mark_desc\<close>, while \<open>my_marker\<close> and \<open>wcc_pivot\<close> are \<open>-1\<close> whatever they
  were: the result is the original record with these two members reset, and for some
  record this is not the record itself.
\<close>

theorem serialize_roundtrip:
  "serialize_load (serialize_save v) VtxInfo_default = v\<lparr>my_marker := - 1, wcc_pivot := - 1\<rparr>
   \<and> out (serialize_load (serialize_save v) VtxInfo_default) = out v
   \<and> in' (serialize_load (serialize_save v) VtxInfo_default) = in' v
   \<and> comp_id (serialize_load (serialize_save v) VtxInfo_default) = comp_id v
   \<and> active (serialize_load (serialize_save v) VtxInfo_default) = active v
   \<and> my_pivot (serialize_load (serialize_save v) VtxInfo_default) = my_pivot v
   \<and> mark_pred (serialize_load (serialize_save v) VtxInfo_default) = mark_pred v
   \<and> mark_desc (serialize_load (serialize_save v) VtxInfo_default) = mark_desc v
   \<and> my_marker (serialize_load (serialize_save v) VtxInfo_default) = - 1
   \<and> wcc_pivot (serialize_load (serialize_save v) VtxInfo_default) = - 1
   \<and> (\<exists>w. serialize_load (serialize_save w) VtxInfo_default \<noteq> w)"
proof -
  have "serialize_load (serialize_save (VtxInfo_default\<lparr>my_marker := 0\<rparr>)) VtxInfo_default
        \<noteq> VtxInfo_default\<lparr>my_marker := 0\<rparr>"
    by (simp add: serialize_load_def serialize_save_def VtxInfo_default_def)
  then have "\<exists>w. serialize_load (serialize_save w) VtxInfo_default \<noteq> w"
    by blast
  then show ?thesis
    by (simp add: serialize_load_def serialize_save_def VtxInfo_default_def)
qed

subsection \<open>Submitted visits\<close>

lemma in_visit_all: "(t, e') \<in># visit_all S e \<longleftrightarrow> t \<in> S \<and> e' = e"
  for S :: "u32 set"
  by (auto simp: visit_all_def)

lemma count_visit_all: "count (visit_all S e) (n, e') = (if n \<in> S \<and> e' = e then 1 else 0)"
  for S :: "u32 set"
proof -
  have "(\<lambda>nbr::u32. (nbr, e)) -` {(n, e')} = (if e' = e then {n} else {})"
    by auto
  then show ?thesis
    by (simp add: visit_all_def count_image_mset)
qed

subsection \<open>The forward marking handler\<close>

text \<open>
  Claim C7. The forward handler at \<open>u\<close> with arguments \<open>(pivot, marker)\<close> returns the record
  unchanged and submits nothing when \<open>u\<close> is inactive, or already has \<open>mark_desc\<close>, or
  \<open>pivot\<close> is not \<open>u\<close>'s \<open>wcc_pivot\<close>. Otherwise it sets \<open>mark_desc\<close>, stores \<open>marker\<close> in
  \<open>my_marker\<close>, and submits exactly one visit with the same \<open>(pivot, marker)\<close> to every
  member of \<open>u.out\<close> and nothing else.
\<close>

theorem comp_pivot_fwd_spec:
  "(\<not> active info \<or> mark_desc info \<or> pivot \<noteq> wcc_pivot info \<longrightarrow>
      comp_pivot_fwd u info pivot marker = (info, {#}))
   \<and> (active info \<and> \<not> mark_desc info \<and> pivot = wcc_pivot info \<longrightarrow>
      fst (comp_pivot_fwd u info pivot marker) = info\<lparr>mark_desc := True, my_marker := marker\<rparr>
      \<and> (\<forall>n e. count (snd (comp_pivot_fwd u info pivot marker)) (n, e)
            = (if n \<in> out info \<and> e = Comp_pivot_fwd pivot marker then 1 else 0)))"
  by (simp add: comp_pivot_fwd_def count_visit_all)

theorem comp_pivot_fwd_spec_witness:
  "comp_pivot_fwd 2 (VtxInfo_default\<lparr>active := False\<rparr>) 7 1 = (VtxInfo_default\<lparr>active := False\<rparr>, {#})
   \<and> active (VtxInfo_default\<lparr>out := {3, 4}, wcc_pivot := 7\<rparr>)
   \<and> \<not> mark_desc (VtxInfo_default\<lparr>out := {3, 4}, wcc_pivot := 7\<rparr>)
   \<and> fst (comp_pivot_fwd 2 (VtxInfo_default\<lparr>out := {3, 4}, wcc_pivot := 7\<rparr>) 7 1)
       = VtxInfo_default\<lparr>out := {3, 4}, wcc_pivot := 7, mark_desc := True, my_marker := 1\<rparr>
   \<and> count (snd (comp_pivot_fwd 2 (VtxInfo_default\<lparr>out := {3, 4}, wcc_pivot := 7\<rparr>) 7 1))
         (3, Comp_pivot_fwd 7 1) = 1
   \<and> count (snd (comp_pivot_fwd 2 (VtxInfo_default\<lparr>out := {3, 4}, wcc_pivot := 7\<rparr>) 7 1))
         (5, Comp_pivot_fwd 7 1) = 0"
  using comp_pivot_fwd_spec [of "VtxInfo_default\<lparr>active := False\<rparr>" 7 2 1]
    comp_pivot_fwd_spec [of "VtxInfo_default\<lparr>out := {3, 4}, wcc_pivot := 7\<rparr>" 7 2 1]
  by (simp add: VtxInfo_default_def)

subsection \<open>The freeze step\<close>

lemma prep_unterminated_visit_snd:
  "snd (prep_unterminated_visit info) = (if active info then 1 else 0)"
  by (simp add: prep_unterminated_visit_def)

lemma num_unterminated_sum:
  assumes "\<forall>v \<in> dom M. owner v < nranks"
  shows "(\<Sum>r < nranks. num_unterminated_local owner M r)
         = card {v. \<exists>info. M v = Some info \<and> active info}"
proof -
  have "(\<Sum>r < nranks. num_unterminated_local owner M r)
        = (\<Sum>v \<in> dom M. snd (prep_unterminated_visit (lookup_vtx M v)))"
    unfolding num_unterminated_local_def
    using assms by (intro sum.group) auto
  also have "\<dots> = (\<Sum>v \<in> dom M. if active (lookup_vtx M v) then 1 else 0)"
    by (simp add: prep_unterminated_visit_snd)
  also have "\<dots> = card {v \<in> dom M. active (lookup_vtx M v)}"
    by (simp add: sum.If_cases Int_def)
  also have "{v \<in> dom M. active (lookup_vtx M v)} = {v. \<exists>info. M v = Some info \<and> active info}"
    by (auto simp: lookup_vtx_def)
  finally show ?thesis .
qed

text \<open>
  Claim C3, as amended. In the freeze step an active vertex with both marks is finalised
  (\<open>comp_id\<close> becomes its \<open>my_marker\<close>, \<open>active\<close> becomes false), every other active vertex
  has its marks and pivots reset, and an inactive vertex is left alone. The value returned
  is the sum over the ranks of the vertices that were active when the scan visited them,
  the finalised ones included: it is zero iff no vertex was active at entry, and when it
  is zero no vertex is active afterwards.
\<close>

theorem prep_unterminated_spec:
  assumes "\<forall>v \<in> dom M. owner v < nranks"
    and "prep_unterminated owner nranks M = (M', n)"
  shows "dom M' = dom M
    \<and> (\<forall>v info. M v = Some info \<longrightarrow>
          M' v = Some
            (if \<not> active info then info
             else if mark_pred info \<and> mark_desc info
               then info\<lparr>active := False, comp_id := ucast (my_marker info)\<rparr>
               else info\<lparr>mark_pred := False, mark_desc := False, my_marker := - 1,
                         my_pivot := - 1, wcc_pivot := - 1\<rparr>))
    \<and> n = card {v. \<exists>info. M v = Some info \<and> active info}
    \<and> (n = 0 \<longleftrightarrow> (\<forall>v info. M v = Some info \<longrightarrow> \<not> active info))
    \<and> (n = 0 \<longrightarrow> (\<forall>v info. M' v = Some info \<longrightarrow> \<not> active info))"
proof -
  from assms(2) have M': "M' = (\<lambda>v. map_option (\<lambda>info. fst (prep_unterminated_visit info)) (M v))"
    and n: "n = (\<Sum>r < nranks. num_unterminated_local owner M r)"
    by (simp_all add: prep_unterminated_def)
  have 1: "dom M' = dom M"
    by (auto simp: M' dom_def)
  have 2: "\<forall>v info. M v = Some info \<longrightarrow>
          M' v = Some
            (if \<not> active info then info
             else if mark_pred info \<and> mark_desc info
               then info\<lparr>active := False, comp_id := ucast (my_marker info)\<rparr>
               else info\<lparr>mark_pred := False, mark_desc := False, my_marker := - 1,
                         my_pivot := - 1, wcc_pivot := - 1\<rparr>)"
    by (simp add: M' prep_unterminated_visit_def)
  have 3: "n = card {v. \<exists>info. M v = Some info \<and> active info}"
    using num_unterminated_sum [OF assms(1)] n by simp
  have fin: "finite {v. \<exists>info. M v = Some info \<and> active info}"
    by simp
  have 4: "n = 0 \<longleftrightarrow> (\<forall>v info. M v = Some info \<longrightarrow> \<not> active info)"
    using fin by (auto simp: 3)
  have 5: "n = 0 \<longrightarrow> (\<forall>v info. M' v = Some info \<longrightarrow> \<not> active info)"
  proof (intro impI allI)
    fix v info assume "n = 0" and "M' v = Some info"
    then obtain i0 where i0: "M v = Some i0" and info: "info = fst (prep_unterminated_visit i0)"
      by (auto simp: M')
    with \<open>n = 0\<close> 4 have "\<not> active i0" by blast
    then show "\<not> active info" by (simp add: info prep_unterminated_visit_def)
  qed
  from 1 2 3 4 5 show ?thesis by blast
qed

lemma both_marked_active_keys: "{v. \<exists>info. [1 \<mapsto> both_marked] v = Some info \<and> active info} = {1::u32}"
  by (auto simp: both_marked_def VtxInfo_default_def)

text \<open>
  The returned value is not the number of vertices that remain active: one active vertex
  with both marks is finalised, no vertex is active after the scan, and the value is 1.
\<close>

theorem prep_unterminated_counterexample:
  "snd (prep_unterminated (\<lambda>v. 0) 1 [1 \<mapsto> both_marked]) = 1
   \<and> \<not> (\<exists>v info. fst (prep_unterminated (\<lambda>v. 0) 1 [1 \<mapsto> both_marked]) v = Some info \<and> active info)"
proof -
  have "num_unterminated_local (\<lambda>v. 0) [1 \<mapsto> both_marked] 0 = 1"
    by (simp add: num_unterminated_local_def prep_unterminated_visit_def lookup_vtx_def
        both_marked_def VtxInfo_default_def)
  then show ?thesis
    by (auto simp: prep_unterminated_def prep_unterminated_visit_def both_marked_def
        VtxInfo_default_def split: if_splits)
qed

theorem prep_unterminated_spec_witness:
  "dom [(1::u32) \<mapsto> both_marked] = {1} \<and> (\<lambda>v::u32. 0::nat) 1 < 1
   \<and> snd (prep_unterminated (\<lambda>v. 0) 1 [1 \<mapsto> both_marked]) = card {1::u32}
   \<and> fst (prep_unterminated (\<lambda>v. 0) 1 [1 \<mapsto> both_marked]) 1
       = Some (both_marked\<lparr>active := False, comp_id := 1\<rparr>)"
proof -
  have h: "\<forall>v \<in> dom [(1::u32) \<mapsto> both_marked]. (\<lambda>v. 0::nat) v < 1" by simp
  obtain M' n where eq: "prep_unterminated (\<lambda>v. 0) 1 [1 \<mapsto> both_marked] = (M', n)"
    by force
  note spec = prep_unterminated_spec [OF h eq]
  have "n = card {1::u32}"
    using spec [THEN conjunct2, THEN conjunct2, THEN conjunct1] by (simp only: both_marked_active_keys)
  moreover have "M' 1 = Some (both_marked\<lparr>active := False, comp_id := 1\<rparr>)"
    using spec [THEN conjunct2, THEN conjunct1, rule_format, of 1 both_marked]
    by (simp add: both_marked_def VtxInfo_default_def)
  ultimately have "n = card {1::u32} \<and> M' 1 = Some (both_marked\<lparr>active := False, comp_id := 1\<rparr>)"
    by blast
  with h eq show ?thesis by simp
qed

subsection \<open>Runs of the vertex store\<close>

lemma pending_kept: "x \<in># pend \<Longrightarrow> x \<noteq> y \<Longrightarrow> x \<in># (pend - {#y#}) + sends"
proof -
  assume "x \<in># pend" and "x \<noteq> y"
  then have "count (pend - {#y#}) x = count pend x"
    by simp
  with \<open>x \<in># pend\<close> have "x \<in># pend - {#y#}"
    by (metis count_greater_zero_iff)
  then show ?thesis by simp
qed

lemma pending_cases:
  "x \<in># (pend - {#y#}) + sends \<Longrightarrow> x \<in># pend \<or> x \<in># sends"
  by (auto dest: in_diffD)

lemma lookup_vtx_upd: "lookup_vtx (M(t \<mapsto> info)) v = (if v = t then info else lookup_vtx M v)"
  by (simp add: lookup_vtx_def)

lemma lookup_vtx_dom: "t \<in> dom M \<Longrightarrow> M(t \<mapsto> lookup_vtx M t) = M"
  by (auto simp: lookup_vtx_def)

lemma steps_invariant:
  assumes run: "(step h)\<^sup>*\<^sup>* c c'" and init: "I c"
    and pres: "\<And>M pend t e info' sends.
      I (M, pend) \<Longrightarrow> (t, e) \<in># pend \<Longrightarrow> h e t (lookup_vtx M t) = (info', sends) \<Longrightarrow>
      I (M(t \<mapsto> info'), (pend - {#(t, e)#}) + sends)"
  shows "I c'"
  using run init
proof (induction rule: rtranclp_induct)
  case base
  then show ?case .
next
  case (step c1 c2)
  from step.hyps(2) show ?case
  proof cases
    case (deliver t e pend M info' sends)
    with step.IH [OF step.prems] pres show ?thesis by blast
  qed
qed

lemma run_schedule_steps:
  "run_schedule h c s = Some c' \<Longrightarrow> (step h)\<^sup>*\<^sup>* c c'"
proof (induction s arbitrary: c)
  case Nil
  then show ?case by simp
next
  case (Cons te s)
  obtain M pend where c: "c = (M, pend)" by (cases c)
  obtain t e where te: "te = (t, e)" by (cases te)
  obtain info' sends where hd: "h e t (lookup_vtx M t) = (info', sends)"
    by (cases "h e t (lookup_vtx M t)")
  from Cons.prems have mem: "(t, e) \<in># pend"
    by (simp add: c te split: if_splits)
  with Cons.prems hd
  have "run_schedule h (M(t \<mapsto> info'), (pend - {#(t, e)#}) + sends) s = Some c'"
    by (simp add: c te)
  then have "(step h)\<^sup>*\<^sup>* (M(t \<mapsto> info'), (pend - {#(t, e)#}) + sends) c'"
    by (rule Cons.IH)
  moreover have "step h (M, pend) (M(t \<mapsto> info'), (pend - {#(t, e)#}) + sends)"
    using mem hd by (rule step.deliver)
  ultimately show ?case
    unfolding c by (rule converse_rtranclp_into_rtranclp [rotated])
qed

lemma run_schedule_barrier:
  "run_schedule h c s = Some (M', {#}) \<Longrightarrow> barrier h c M'"
  unfolding barrier_def by (rule run_schedule_steps)

lemma idle_steps_stay:
  assumes idle: "\<forall>(t, e) \<in># pend. t \<in> dom M \<and> h e t (lookup_vtx M t) = (lookup_vtx M t, {#})"
    and run: "(step h)\<^sup>*\<^sup>* (M, pend) c'"
  shows "fst c' = M"
proof -
  have "fst c' = M \<and> snd c' \<subseteq># pend"
    using run
  proof (rule steps_invariant [where I = "\<lambda>c. fst c = M \<and> snd c \<subseteq># pend"])
    show "fst (M, pend) = M \<and> snd (M, pend) \<subseteq># pend" by simp
  next
    fix M1 pend1 t e info' sends
    assume I: "fst (M1, pend1) = M \<and> snd (M1, pend1) \<subseteq># pend"
      and mem: "(t, e) \<in># pend1" and hd: "h e t (lookup_vtx M1 t) = (info', sends)"
    from I have M1: "M1 = M" and sub: "pend1 \<subseteq># pend" by simp_all
    from sub mem have "(t, e) \<in># pend" by (rule mset_subset_eqD)
    with idle have t: "t \<in> dom M" and "h e t (lookup_vtx M t) = (lookup_vtx M t, {#})"
      by auto
    with hd have "info' = lookup_vtx M t" "sends = {#}"
      by (simp_all add: M1)
    moreover have "pend1 - {#(t, e)#} \<subseteq># pend"
      using sub by (meson diff_subset_eq_self subset_mset.order_trans)
    ultimately show "fst (M1(t \<mapsto> info'), pend1 - {#(t, e)#} + sends) = M
        \<and> snd (M1(t \<mapsto> info'), pend1 - {#(t, e)#} + sends) \<subseteq># pend"
      using t by (simp add: M1 lookup_vtx_dom)
  qed
  then show ?thesis ..
qed

lemma idle_steps_finish:
  assumes "\<forall>(t, e) \<in># pend. t \<in> dom M \<and> h e t (lookup_vtx M t) = (lookup_vtx M t, {#})"
  shows "(step h)\<^sup>*\<^sup>* (M, pend) (M, {#})"
  using assms
proof (induction pend)
  case empty
  then show ?case by simp
next
  case (add x pend)
  obtain t e where x: "x = (t, e)" by (cases x)
  from add.prems have t: "t \<in> dom M" and hd: "h e t (lookup_vtx M t) = (lookup_vtx M t, {#})"
    by (auto simp: x)
  have "(t, e) \<in># add_mset x pend" by (simp add: x)
  from step.deliver [of t e "add_mset x pend" h M, OF this hd]
  have "step h (M, add_mset x pend) (M, pend)"
    using t by (simp add: x lookup_vtx_dom)
  moreover have "(step h)\<^sup>*\<^sup>* (M, pend) (M, {#})"
    using add.prems by (intro add.IH) auto
  ultimately show ?case
    by (rule converse_rtranclp_into_rtranclp)
qed

subsection \<open>The example runs\<close>

lemma dom_cycle_tail: "dom cycle_tail = {1, 2, 3}"
  by (auto simp: cycle_tail_def)

lemma trim_cycle_tail: "trim_trivial cycle_tail cycle_tail_trimmed"
proof -
  have "run_schedule trim_trivial_handler (cycle_tail, local_for_all cycle_tail Trim_trivial_local)
      [(1, Trim_trivial_local), (2, Trim_trivial_local), (3, Trim_trivial_local), (2, Trim_vtx 3 False)]
    = Some (cycle_tail_trimmed, {#})"
    unfolding local_for_all_def dom_cycle_tail
    by (simp add: visit_all_def cycle_tail_def cycle_tail_trimmed_def lookup_vtx_def
        trim_trivial_local_def trim_vtx_def VtxInfo_default_def)
      (auto simp: fun_eq_iff)
  then show ?thesis
    unfolding trim_trivial_def by (rule run_schedule_barrier)
qed

lemma dom_three: "dom [1 \<mapsto> a, 2 \<mapsto> b, 3 \<mapsto> c] = {1 :: u32, 2, 3}"
  for a b c :: VtxInfo
  by auto

lemma dom_examples:
  "dom fork = {1, 2, 3}"
  "dom fork_pivoted = {1, 2, 3}"
  "dom fork_marked = {1, 2, 3}"
  "dom fork_frozen = {1, 2, 3}"
  "dom fork_sheared = {1, 2, 3}"
  "dom relay = {1, 2, 3}"
  "dom relay_pivoted = {1, 2, 3}"
  "dom relay_marked = {1, 2, 3}"
  "dom relay_frozen = {1, 2, 3}"
  "dom relay_pivoted1 = {1, 2, 3}"
  "dom relay_marked1 = {1, 2, 3}"
  "dom relay_frozen1 = {1, 2, 3}"
  "dom relay_sheared1 = {1, 2, 3}"
  "dom relay_trimmed2 = {1, 2, 3}"
  "dom loop_cycle = {1, 2, 3}"
  "dom loop_cycle_pivoted = {1, 2, 3}"
  "dom loop_cycle_marked = {1, 2, 3}"
  "dom loop_cycle_frozen = {1, 2, 3}"
  "dom loop_cycle_pivoted1 = {1, 2, 3}"
  "dom loop_cycle_marked1 = {1, 2, 3}"
  "dom loop_cycle_frozen1 = {1, 2, 3}"
  "dom cycle_tail_pivoted = {1, 2, 3}"
  "dom cycle_tail_marked = {1, 2, 3}"
  "dom cycle_tail_frozen = {1, 2, 3}"
  by (simp_all only: dom_three fork_def fork_pivoted_def fork_marked_def fork_frozen_def
      fork_sheared_def relay_def relay_pivoted_def relay_marked_def
      relay_frozen_def relay_pivoted1_def relay_marked1_def relay_frozen1_def
      relay_sheared1_def relay_trimmed2_def loop_cycle_def loop_cycle_pivoted_def
      loop_cycle_marked_def loop_cycle_frozen_def loop_cycle_pivoted1_def loop_cycle_marked1_def
      loop_cycle_frozen1_def cycle_tail_pivoted_def cycle_tail_marked_def cycle_tail_frozen_def)

lemma perm_values:
  "init_wcc_pivots_perm 0 1 3 1 = 2" "init_wcc_pivots_perm 0 1 3 2 = 1" "init_wcc_pivots_perm 0 1 3 3 = 3"
  "init_wcc_pivots_perm 1 1 3 1 = 2" "init_wcc_pivots_perm 1 1 3 2 = 1" "init_wcc_pivots_perm 1 1 3 3 = 3"
  by code_simp+

lemma fork_ingest: "create_vertex_map fork_edges Map.empty fork"
proof -
  have "run_schedule create_vertex_map_handler (Map.empty, create_vertex_map_visits fork_edges)
      [(1, Add_fwd_edge 1), (1, Add_reverse_edge 1), (1, Add_fwd_edge 3),
       (3, Add_reverse_edge 1), (1, Add_fwd_edge 2), (2, Add_reverse_edge 1),
       (2, Add_fwd_edge 3), (3, Add_reverse_edge 2), (3, Add_fwd_edge 3),
       (3, Add_reverse_edge 3)]
    = Some (fork, {#})"
    by (simp add: fork_edges_def fork_def lookup_vtx_def add_fwd_edge_def
        add_reverse_edge_def VtxInfo_default_def)
      ((auto simp: fun_eq_iff)?)
  then show ?thesis
    unfolding create_vertex_map_def by (rule run_schedule_barrier)
qed

lemma fork_trim: "trim_trivial fork fork"
proof -
  have "run_schedule trim_trivial_handler
      (fork, local_for_all fork Trim_trivial_local)
      [(1, Trim_trivial_local), (2, Trim_trivial_local), (3, Trim_trivial_local)]
    = Some (fork, {#})"
    unfolding local_for_all_def dom_examples
    by (simp add: visit_all_def lookup_vtx_def VtxInfo_default_def
        fork_def trim_trivial_local_def trim_vtx_def)
      ((auto simp: fun_eq_iff)?)
  then show ?thesis
    unfolding trim_trivial_def by (rule run_schedule_barrier)
qed

lemma fork_pivots_assign:
  "init_wcc_pivots_assign (init_wcc_pivots_perm 0 1 3) fork =
    [1 \<mapsto> VtxInfo_default\<lparr>out := {1, 2, 3}, in' := {1}, my_marker := 1, my_pivot := 2,
          wcc_pivot := 2\<rparr>,
     2 \<mapsto> VtxInfo_default\<lparr>out := {3}, in' := {1}, my_marker := 2, my_pivot := 1,
          wcc_pivot := 1\<rparr>,
     3 \<mapsto> VtxInfo_default\<lparr>out := {3}, in' := {1, 2, 3}, my_marker := 3, my_pivot := 3,
          wcc_pivot := 3\<rparr>]"
  by (auto simp: fun_eq_iff init_wcc_pivots_assign_def fork_def perm_values VtxInfo_default_def)

lemma fork_pivots: "init_wcc_pivots 0 1 3 fork fork_pivoted"
proof -
  have "run_schedule (init_wcc_pivots_handler (init_wcc_pivots_perm 0 1 3))
      (init_wcc_pivots_assign (init_wcc_pivots_perm 0 1 3) fork,
       local_for_all (init_wcc_pivots_assign (init_wcc_pivots_perm 0 1 3) fork) Init_wcc_pivots_local)
      [(1, Init_wcc_pivots_local), (2, Init_wcc_pivots_local), (3, Init_wcc_pivots_local),
       (2, Pop_front_and_send 1), (3, Recv_and_enqueue 1), (1, Recv_and_enqueue 1),
       (3, Pop_front_and_send 1), (3, Recv_and_enqueue 1), (1, Recv_and_enqueue 1),
       (2, Recv_and_enqueue 1), (3, Recv_and_enqueue 1), (1, Pop_front_and_send 1),
       (1, Recv_and_enqueue 1), (2, Recv_and_enqueue 1), (3, Recv_and_enqueue 1),
       (1, Recv_and_enqueue 1)]
    = Some (fork_pivoted, {#})"
    unfolding fork_pivots_assign local_for_all_def dom_three
    by (simp add: visit_all_def lookup_vtx_def VtxInfo_default_def fork_pivoted_def perm_values
        init_wcc_pivots_local_def pop_front_and_send_def recv_and_enqueue_def)
      ((auto simp: fun_eq_iff)?)
  then show ?thesis
    unfolding init_wcc_pivots_def init_wcc_pivots_with_def by (rule run_schedule_barrier)
qed

lemma fork_prop_pivots: "prop_pivots fork_pivoted fork_marked"
proof -
  have "run_schedule prop_pivots_handler
      (fork_pivoted, local_for_all fork_pivoted Prop_pivots_local)
      [(1, Prop_pivots_local), (2, Prop_pivots_local), (3, Prop_pivots_local),
       (1, Comp_pivot_bwd 1 2), (1, Comp_pivot_bwd 1 2), (3, Comp_pivot_fwd 1 2),
       (3, Comp_pivot_fwd 1 2)]
    = Some (fork_marked, {#})"
    unfolding local_for_all_def dom_examples
    by (simp add: visit_all_def lookup_vtx_def VtxInfo_default_def
        fork_pivoted_def fork_marked_def prop_pivots_local_def comp_pivot_fwd_def comp_pivot_bwd_def)
      ((auto simp: fun_eq_iff)?)
  then show ?thesis
    unfolding prop_pivots_def by (rule run_schedule_barrier)
qed

lemma fork_prep_unterminated: "prep_unterminated (\<lambda>v. 0) 1 fork_marked = (fork_frozen, 3)"
proof -
  have "{v \<in> dom fork_marked. (0::nat) = 0} = {1, 2, 3}"
    by (auto simp: dom_examples)
  then have "num_unterminated_local (\<lambda>v. 0) fork_marked 0 = 3"
    by (simp add: num_unterminated_local_def prep_unterminated_visit_def lookup_vtx_def
        fork_marked_def VtxInfo_default_def)
  moreover have "(\<lambda>v. map_option (\<lambda>info. fst (prep_unterminated_visit info)) (fork_marked v))
      = fork_frozen"
    by (auto simp: fun_eq_iff fork_marked_def fork_frozen_def prep_unterminated_visit_def
        VtxInfo_default_def)
  ultimately show ?thesis
    by (simp add: prep_unterminated_def)
qed

lemma fork_shear_edges: "shear_edges fork_frozen fork_sheared"
proof -
  have "run_schedule shear_edges_handler
      (fork_frozen, local_for_all fork_frozen Shear_edges_local)
      [(1, Shear_edges_local), (2, Shear_edges_local), (3, Shear_edges_local),
       (1, Check_and_remove_in 1 False False), (2, Check_and_remove_in 1 False False),
       (3, Check_and_remove_in 1 False False), (3, Check_and_remove_in 3 False False),
       (1, Remove_out 2)]
    = Some (fork_sheared, {#})"
    unfolding local_for_all_def dom_examples
    by (simp add: visit_all_def lookup_vtx_def VtxInfo_default_def
        fork_frozen_def fork_sheared_def shear_edges_local_def check_and_remove_in_def remove_out_def)
      ((auto simp: fun_eq_iff)?)
  then show ?thesis
    unfolding shear_edges_def by (rule run_schedule_barrier)
qed















lemma loop_cycle_ingest: "create_vertex_map loop_cycle_edges Map.empty loop_cycle"
proof -
  have "run_schedule create_vertex_map_handler (Map.empty, create_vertex_map_visits loop_cycle_edges)
      [(2, Add_fwd_edge 2), (2, Add_reverse_edge 2), (2, Add_fwd_edge 1),
       (1, Add_reverse_edge 2), (1, Add_fwd_edge 3), (3, Add_reverse_edge 1),
       (3, Add_fwd_edge 1), (1, Add_reverse_edge 3)]
    = Some (loop_cycle, {#})"
    by (simp add: loop_cycle_edges_def loop_cycle_def lookup_vtx_def add_fwd_edge_def
        add_reverse_edge_def VtxInfo_default_def)
      ((auto simp: fun_eq_iff)?)
  then show ?thesis
    unfolding create_vertex_map_def by (rule run_schedule_barrier)
qed

lemma loop_cycle_trim: "trim_trivial loop_cycle loop_cycle"
proof -
  have "run_schedule trim_trivial_handler
      (loop_cycle, local_for_all loop_cycle Trim_trivial_local)
      [(1, Trim_trivial_local), (2, Trim_trivial_local), (3, Trim_trivial_local)]
    = Some (loop_cycle, {#})"
    unfolding local_for_all_def dom_examples
    by (simp add: visit_all_def lookup_vtx_def VtxInfo_default_def
        loop_cycle_def trim_trivial_local_def trim_vtx_def)
      ((auto simp: fun_eq_iff)?)
  then show ?thesis
    unfolding trim_trivial_def by (rule run_schedule_barrier)
qed

lemma loop_cycle_pivots_assign:
  "init_wcc_pivots_assign (init_wcc_pivots_perm 0 1 3) loop_cycle =
    [1 \<mapsto> VtxInfo_default\<lparr>out := {3}, in' := {2, 3}, my_marker := 1, my_pivot := 2,
          wcc_pivot := 2\<rparr>,
     2 \<mapsto> VtxInfo_default\<lparr>out := {1, 2}, in' := {2}, my_marker := 2, my_pivot := 1,
          wcc_pivot := 1\<rparr>,
     3 \<mapsto> VtxInfo_default\<lparr>out := {1}, in' := {1}, my_marker := 3, my_pivot := 3,
          wcc_pivot := 3\<rparr>]"
  by (auto simp: fun_eq_iff init_wcc_pivots_assign_def loop_cycle_def perm_values VtxInfo_default_def)

lemma loop_cycle_pivots: "init_wcc_pivots 0 1 3 loop_cycle loop_cycle_pivoted"
proof -
  have "run_schedule (init_wcc_pivots_handler (init_wcc_pivots_perm 0 1 3))
      (init_wcc_pivots_assign (init_wcc_pivots_perm 0 1 3) loop_cycle,
       local_for_all (init_wcc_pivots_assign (init_wcc_pivots_perm 0 1 3) loop_cycle) Init_wcc_pivots_local)
      [(1, Init_wcc_pivots_local), (2, Init_wcc_pivots_local), (3, Init_wcc_pivots_local),
       (2, Pop_front_and_send 1), (1, Recv_and_enqueue 1), (2, Recv_and_enqueue 1),
       (2, Recv_and_enqueue 1), (1, Pop_front_and_send 1), (3, Recv_and_enqueue 1),
       (2, Recv_and_enqueue 1), (3, Recv_and_enqueue 1), (3, Pop_front_and_send 1),
       (1, Recv_and_enqueue 1), (1, Recv_and_enqueue 1)]
    = Some (loop_cycle_pivoted, {#})"
    unfolding loop_cycle_pivots_assign local_for_all_def dom_three
    by (simp add: visit_all_def lookup_vtx_def VtxInfo_default_def loop_cycle_pivoted_def perm_values
        init_wcc_pivots_local_def pop_front_and_send_def recv_and_enqueue_def)
      ((auto simp: fun_eq_iff)?)
  then show ?thesis
    unfolding init_wcc_pivots_def init_wcc_pivots_with_def by (rule run_schedule_barrier)
qed

lemma loop_cycle_prop_pivots: "prop_pivots loop_cycle_pivoted loop_cycle_marked"
proof -
  have "run_schedule prop_pivots_handler
      (loop_cycle_pivoted, local_for_all loop_cycle_pivoted Prop_pivots_local)
      [(1, Prop_pivots_local), (2, Prop_pivots_local), (3, Prop_pivots_local),
       (2, Comp_pivot_bwd 1 2), (1, Comp_pivot_fwd 1 2), (2, Comp_pivot_fwd 1 2),
       (3, Comp_pivot_fwd 1 2), (1, Comp_pivot_fwd 1 2)]
    = Some (loop_cycle_marked, {#})"
    unfolding local_for_all_def dom_examples
    by (simp add: visit_all_def lookup_vtx_def VtxInfo_default_def
        loop_cycle_pivoted_def loop_cycle_marked_def prop_pivots_local_def comp_pivot_fwd_def comp_pivot_bwd_def)
      ((auto simp: fun_eq_iff)?)
  then show ?thesis
    unfolding prop_pivots_def by (rule run_schedule_barrier)
qed

lemma loop_cycle_prep_unterminated: "prep_unterminated (\<lambda>v. 0) 1 loop_cycle_marked = (loop_cycle_frozen, 3)"
proof -
  have "{v \<in> dom loop_cycle_marked. (0::nat) = 0} = {1, 2, 3}"
    by (auto simp: dom_examples)
  then have "num_unterminated_local (\<lambda>v. 0) loop_cycle_marked 0 = 3"
    by (simp add: num_unterminated_local_def prep_unterminated_visit_def lookup_vtx_def
        loop_cycle_marked_def VtxInfo_default_def)
  moreover have "(\<lambda>v. map_option (\<lambda>info. fst (prep_unterminated_visit info)) (loop_cycle_marked v))
      = loop_cycle_frozen"
    by (auto simp: fun_eq_iff loop_cycle_marked_def loop_cycle_frozen_def prep_unterminated_visit_def
        VtxInfo_default_def)
  ultimately show ?thesis
    by (simp add: prep_unterminated_def)
qed

lemma loop_cycle_shear_edges: "shear_edges loop_cycle_frozen loop_cycle_frozen"
proof -
  have "run_schedule shear_edges_handler
      (loop_cycle_frozen, local_for_all loop_cycle_frozen Shear_edges_local)
      [(1, Shear_edges_local), (2, Shear_edges_local), (3, Shear_edges_local),
       (3, Check_and_remove_in 1 False False), (1, Check_and_remove_in 3 False False)]
    = Some (loop_cycle_frozen, {#})"
    unfolding local_for_all_def dom_examples
    by (simp add: visit_all_def lookup_vtx_def VtxInfo_default_def
        loop_cycle_frozen_def shear_edges_local_def check_and_remove_in_def remove_out_def)
      ((auto simp: fun_eq_iff)?)
  then show ?thesis
    unfolding shear_edges_def by (rule run_schedule_barrier)
qed

lemma loop_cycle_trim1: "trim_trivial loop_cycle_frozen loop_cycle_frozen"
proof -
  have "run_schedule trim_trivial_handler
      (loop_cycle_frozen, local_for_all loop_cycle_frozen Trim_trivial_local)
      [(1, Trim_trivial_local), (2, Trim_trivial_local), (3, Trim_trivial_local)]
    = Some (loop_cycle_frozen, {#})"
    unfolding local_for_all_def dom_examples
    by (simp add: visit_all_def lookup_vtx_def VtxInfo_default_def
        loop_cycle_frozen_def trim_trivial_local_def trim_vtx_def)
      ((auto simp: fun_eq_iff)?)
  then show ?thesis
    unfolding trim_trivial_def by (rule run_schedule_barrier)
qed

lemma loop_cycle_pivots1_assign:
  "init_wcc_pivots_assign (init_wcc_pivots_perm 1 1 3) loop_cycle_frozen =
    [1 \<mapsto> VtxInfo_default\<lparr>out := {3}, in' := {2, 3}, my_marker := 1, my_pivot := 2,
          wcc_pivot := 2\<rparr>,
     2 \<mapsto> VtxInfo_default\<lparr>out := {1, 2}, in' := {2}, comp_id := 2, active := False,
          my_marker := 2, my_pivot := 1, wcc_pivot := 1, mark_pred := True,
          mark_desc := True\<rparr>,
     3 \<mapsto> VtxInfo_default\<lparr>out := {1}, in' := {1}, my_marker := 3, my_pivot := 3,
          wcc_pivot := 3\<rparr>]"
  by (auto simp: fun_eq_iff init_wcc_pivots_assign_def loop_cycle_frozen_def perm_values VtxInfo_default_def)

lemma loop_cycle_pivots1: "init_wcc_pivots 1 1 3 loop_cycle_frozen loop_cycle_pivoted1"
proof -
  have "run_schedule (init_wcc_pivots_handler (init_wcc_pivots_perm 1 1 3))
      (init_wcc_pivots_assign (init_wcc_pivots_perm 1 1 3) loop_cycle_frozen,
       local_for_all (init_wcc_pivots_assign (init_wcc_pivots_perm 1 1 3) loop_cycle_frozen) Init_wcc_pivots_local)
      [(1, Init_wcc_pivots_local), (2, Init_wcc_pivots_local), (3, Init_wcc_pivots_local)]
    = Some (loop_cycle_pivoted1, {#})"
    unfolding loop_cycle_pivots1_assign local_for_all_def dom_three
    by (simp add: visit_all_def lookup_vtx_def VtxInfo_default_def loop_cycle_pivoted1_def perm_values
        init_wcc_pivots_local_def pop_front_and_send_def recv_and_enqueue_def)
      ((auto simp: fun_eq_iff)?)
  then show ?thesis
    unfolding init_wcc_pivots_def init_wcc_pivots_with_def by (rule run_schedule_barrier)
qed

lemma loop_cycle_prop_pivots1: "prop_pivots loop_cycle_pivoted1 loop_cycle_marked1"
proof -
  have "run_schedule prop_pivots_handler
      (loop_cycle_pivoted1, local_for_all loop_cycle_pivoted1 Prop_pivots_local)
      [(1, Prop_pivots_local), (2, Prop_pivots_local), (3, Prop_pivots_local),
       (2, Comp_pivot_bwd 2 1), (3, Comp_pivot_bwd 2 1), (3, Comp_pivot_fwd 2 1),
       (1, Comp_pivot_bwd 3 3), (1, Comp_pivot_fwd 3 3)]
    = Some (loop_cycle_marked1, {#})"
    unfolding local_for_all_def dom_examples
    by (simp add: visit_all_def lookup_vtx_def VtxInfo_default_def
        loop_cycle_pivoted1_def loop_cycle_marked1_def prop_pivots_local_def comp_pivot_fwd_def comp_pivot_bwd_def)
      ((auto simp: fun_eq_iff)?)
  then show ?thesis
    unfolding prop_pivots_def by (rule run_schedule_barrier)
qed

lemma loop_cycle_prep_unterminated1: "prep_unterminated (\<lambda>v. 0) 1 loop_cycle_marked1 = (loop_cycle_frozen1, 2)"
proof -
  have "{v \<in> dom loop_cycle_marked1. (0::nat) = 0} = {1, 2, 3}"
    by (auto simp: dom_examples)
  then have "num_unterminated_local (\<lambda>v. 0) loop_cycle_marked1 0 = 2"
    by (simp add: num_unterminated_local_def prep_unterminated_visit_def lookup_vtx_def
        loop_cycle_marked1_def VtxInfo_default_def)
  moreover have "(\<lambda>v. map_option (\<lambda>info. fst (prep_unterminated_visit info)) (loop_cycle_marked1 v))
      = loop_cycle_frozen1"
    by (auto simp: fun_eq_iff loop_cycle_marked1_def loop_cycle_frozen1_def prep_unterminated_visit_def
        VtxInfo_default_def)
  ultimately show ?thesis
    by (simp add: prep_unterminated_def)
qed








lemma loop_cycle_pivots1_idle:
  "\<forall>(t, e) \<in># local_for_all loop_cycle_pivoted1 Init_wcc_pivots_local.
     t \<in> dom loop_cycle_pivoted1
     \<and> init_wcc_pivots_handler (init_wcc_pivots_perm 1 1 3) e t (lookup_vtx loop_cycle_pivoted1 t)
         = (lookup_vtx loop_cycle_pivoted1 t, {#})"
  unfolding local_for_all_def dom_examples
  by (auto simp: in_visit_all loop_cycle_pivoted1_def lookup_vtx_def init_wcc_pivots_local_def
      perm_values VtxInfo_default_def)

lemma loop_cycle_pivots1_assigned:
  "init_wcc_pivots_assign (init_wcc_pivots_perm 1 1 3) loop_cycle_frozen = loop_cycle_pivoted1"
  by (simp only: loop_cycle_pivots1_assign loop_cycle_pivoted1_def)

lemma loop_cycle_pivots1_only:
  "init_wcc_pivots 1 1 3 loop_cycle_frozen M' \<longleftrightarrow> M' = loop_cycle_pivoted1"
proof
  assume "init_wcc_pivots 1 1 3 loop_cycle_frozen M'"
  then have "(step (init_wcc_pivots_handler (init_wcc_pivots_perm 1 1 3)))\<^sup>*\<^sup>*
      (loop_cycle_pivoted1, local_for_all loop_cycle_pivoted1 Init_wcc_pivots_local) (M', {#})"
    by (simp add: init_wcc_pivots_def init_wcc_pivots_with_def barrier_def loop_cycle_pivots1_assigned)
  with idle_steps_stay [where h = "init_wcc_pivots_handler (init_wcc_pivots_perm 1 1 3)"
      and c' = "(M', {#})", OF loop_cycle_pivots1_idle]
  show "M' = loop_cycle_pivoted1"
    by simp
next
  assume "M' = loop_cycle_pivoted1"
  with loop_cycle_pivots1 show "init_wcc_pivots 1 1 3 loop_cycle_frozen M'"
    by simp
qed

subsection \<open>Every phase reaches its barrier\<close>

lemma trim_erased_simps [simp]:
  "trim_erased_in Trim_trivial_local = {}" "trim_erased_out Trim_trivial_local = {}"
  "trim_erased_in (Trim_vtx s True) = {s}" "trim_erased_out (Trim_vtx s True) = {}"
  "trim_erased_in (Trim_vtx s False) = {}" "trim_erased_out (Trim_vtx s False) = {s}"
  by (simp_all add: trim_erased_in_def trim_erased_out_def)

lemma trim_handler_outcomes:
  assumes "trim_trivial_handler e t info = (info', sends)"
  obtains
    (drop) "\<not> active info" "info' = info" "sends = {#}"
  | (keep) "active info" "active info'" "sends = {#}"
      "in' info' = in' info - trim_erased_in e" "out info' = out info - trim_erased_out e"
      "in' info' \<noteq> {}" "out info' \<noteq> {}"
  | (fwd) "active info" "\<not> active info'" "comp_id info' = ucast t"
      "in' info' = {}" "out info' = {}" "in' info - trim_erased_in e = {}"
      "sends = visit_all (out info - trim_erased_out e) (Trim_vtx t True)"
  | (bwd) "active info" "\<not> active info'" "comp_id info' = ucast t"
      "in' info' = {}" "out info' = {}" "out info - trim_erased_out e = {}"
      "sends = visit_all (in' info - trim_erased_in e) (Trim_vtx t False)"
proof (cases e)
  case Trim_trivial_local
  show ?thesis
  proof (cases "active info")
    case False
    with assms Trim_trivial_local show ?thesis
      by (intro drop) (simp_all add: trim_trivial_local_def)
  next
    case True
    show ?thesis
    proof (cases "in' info = {}")
      case e1: True
      with assms Trim_trivial_local True show ?thesis
        by (intro fwd) (auto simp: trim_trivial_local_def visit_all_def)
    next
      case e1: False
      show ?thesis
      proof (cases "out info = {}")
        case True
        with assms Trim_trivial_local \<open>active info\<close> e1 show ?thesis
          by (intro bwd) (auto simp: trim_trivial_local_def)
      next
        case False
        with assms Trim_trivial_local \<open>active info\<close> e1 show ?thesis
          by (intro keep) (auto simp: trim_trivial_local_def)
      qed
    qed
  qed
next
  case (Trim_vtx sender direction)
  show ?thesis
  proof (cases "active info")
    case False
    with assms Trim_vtx show ?thesis
      by (intro drop) (simp_all add: trim_vtx_def)
  next
    case True
    show ?thesis
    proof (cases "in' info - trim_erased_in e = {}")
      case e1: True
      with assms Trim_vtx True show ?thesis
        by (intro fwd; cases direction) (auto simp: trim_vtx_def Let_def)
    next
      case e1: False
      show ?thesis
      proof (cases "out info - trim_erased_out e = {}")
        case True
        with assms Trim_vtx \<open>active info\<close> e1 show ?thesis
          by (intro bwd; cases direction) (auto simp: trim_vtx_def Let_def)
      next
        case False
        with assms Trim_vtx \<open>active info\<close> e1 show ?thesis
          by (intro keep; cases direction) (auto simp: trim_vtx_def Let_def)
      qed
    qed
  qed
qed

lemma steps_terminate_aux:
  fixes m :: "vertex_map \<Rightarrow> nat" and w :: "'e \<Rightarrow> nat"
  assumes dec: "\<And>M t e info' sends. h e t (lookup_vtx M t) = (info', sends) \<Longrightarrow>
      m (M(t \<mapsto> info')) < m M
      \<or> (m (M(t \<mapsto> info')) = m M \<and> (\<Sum>x\<in>#sends. w (snd x)) < w e)"
  shows "m M = n \<Longrightarrow> (\<Sum>x\<in>#pend. w (snd x)) = k \<Longrightarrow> \<exists>M'. (step h)\<^sup>*\<^sup>* (M, pend) (M', {#})"
proof (induction n arbitrary: k M pend rule: less_induct)
  case (less n)
  note outer = less.IH
  show ?case
    using less.prems
  proof (induction k arbitrary: M pend rule: less_induct)
    case (less k)
    note inner = less.IH and mn = less.prems(1) and Wk = less.prems(2)
    show ?case
    proof (cases "pend = {#}")
      case True
      then show ?thesis by blast
    next
      case False
      then obtain x where "x \<in># pend" by (auto simp: multiset_eq_iff dest!: multi_nonempty_split)
      then obtain t e where mem: "(t, e) \<in># pend" by (cases x) simp
      obtain info' sends where hd: "h e t (lookup_vtx M t) = (info', sends)"
        by (cases "h e t (lookup_vtx M t)")
      have st: "step h (M, pend) (M(t \<mapsto> info'), (pend - {#(t, e)#}) + sends)"
        using mem hd by (rule step.deliver)
      from mem have split: "pend = add_mset (t, e) (pend - {#(t, e)#})"
        by simp
      have W: "(\<Sum>x\<in>#pend. w (snd x)) = w e + (\<Sum>x\<in>#pend - {#(t, e)#}. w (snd x))"
        by (subst split) simp
      have "\<exists>M'. (step h)\<^sup>*\<^sup>* (M(t \<mapsto> info'), (pend - {#(t, e)#}) + sends) (M', {#})"
      proof -
        from dec [OF hd] consider
          (a) "m (M(t \<mapsto> info')) < m M"
          | (b) "m (M(t \<mapsto> info')) = m M" "(\<Sum>x\<in>#sends. w (snd x)) < w e"
          by blast
        then show ?thesis
        proof cases
          case a
          with mn have "m (M(t \<mapsto> info')) < n" by simp
          then show ?thesis by (rule outer) (rule refl)+
        next
          case b
          from b(2) W Wk have "(\<Sum>x\<in>#(pend - {#(t, e)#}) + sends. w (snd x)) < k"
            by simp
          moreover from b(1) mn have "m (M(t \<mapsto> info')) = n" by simp
          ultimately show ?thesis by (rule inner) (rule refl)
        qed
      qed
      then obtain M' where "(step h)\<^sup>*\<^sup>* (M(t \<mapsto> info'), (pend - {#(t, e)#}) + sends) (M', {#})" ..
      with st have "(step h)\<^sup>*\<^sup>* (M, pend) (M', {#})"
        by (rule converse_rtranclp_into_rtranclp)
      then show ?thesis by blast
    qed
  qed
qed

lemma barrier_reached:
  fixes m :: "vertex_map \<Rightarrow> nat" and w :: "'e \<Rightarrow> nat"
  assumes "\<And>M t e info' sends. h e t (lookup_vtx M t) = (info', sends) \<Longrightarrow>
      m (M(t \<mapsto> info')) < m M
      \<or> (m (M(t \<mapsto> info')) = m M \<and> (\<Sum>x\<in>#sends. w (snd x)) < w e)"
  shows "\<exists>M'. barrier h (M, pend) M'"
  unfolding barrier_def
proof (rule steps_terminate_aux [where h = h and m = m and w = w])
  fix M t e info' sends
  assume "h e t (lookup_vtx M t) = (info', sends)"
  then show "m (M(t \<mapsto> info')) < m M
      \<or> (m (M(t \<mapsto> info')) = m M \<and> (\<Sum>x\<in>#sends. w (snd x)) < w e)"
    by (rule assms)
qed (rule refl)+

lemma active_set_upd:
  "{v. active (lookup_vtx (M(t \<mapsto> info')) v)} =
     (if active info' then insert t {v. active (lookup_vtx M v)} else {v. active (lookup_vtx M v)} - {t})"
  by (auto simp: lookup_vtx_upd)

lemma trim_trivial_reaches_barrier: "\<exists>M'. trim_trivial M M'"
  unfolding trim_trivial_def
proof (rule barrier_reached [where m = "\<lambda>M. card {v. active (lookup_vtx M v)}" and w = "\<lambda>e. 1"])
  fix M t e info' sends
  assume hd: "trim_trivial_handler e t (lookup_vtx M t) = (info', sends)"
  let ?A = "{v. active (lookup_vtx M v)}"
  from hd show "card {v. active (lookup_vtx (M(t \<mapsto> info')) v)} < card ?A
      \<or> (card {v. active (lookup_vtx (M(t \<mapsto> info')) v)} = card ?A \<and> (\<Sum>x\<in>#sends. 1) < (1::nat))"
  proof (cases rule: trim_handler_outcomes)
    case drop
    then show ?thesis by (simp add: active_set_upd)
  next
    case keep
    then have "insert t ?A = ?A" by auto
    with keep show ?thesis by (simp add: active_set_upd)
  next
    case fwd
    then have "t \<in> ?A" by simp
    then have "card (?A - {t}) < card ?A"
      by (intro psubset_card_mono) auto
    with fwd show ?thesis by (simp add: active_set_upd)
  next
    case bwd
    then have "t \<in> ?A" by simp
    then have "card (?A - {t}) < card ?A"
      by (intro psubset_card_mono) auto
    with bwd show ?thesis by (simp add: active_set_upd)
  qed
qed

lemma visit_all_weight: "(\<Sum>x\<in>#visit_all S e. w (snd x)) = card S * w e"
  for S :: "u32 set" and w :: "'e \<Rightarrow> nat"
  by (simp add: visit_all_def image_mset.compositionality comp_def)

lemma card_u32_le: "card S \<le> 2 ^ 32" for S :: "u32 set"
proof -
  have "card S \<le> card (UNIV :: u32 set)"
    by (rule card_mono) simp_all
  then show ?thesis
    by (simp add: card_word)
qed

lemma visit_all_weight_le: "(\<Sum>x\<in>#visit_all S e. w (snd x)) \<le> 2 ^ 32 * w e"
  for S :: "u32 set" and w :: "'e \<Rightarrow> nat"
  unfolding visit_all_weight by (rule mult_right_mono [OF card_u32_le]) simp


lemma shear_weight_simps:
  "shear_weight Shear_edges_local = 2 * 2 ^ 32 + 1"
  "shear_weight (Check_and_remove_in s p d) = 2"
  "shear_weight (Remove_out edge) = 1"
  by (simp_all add: shear_weight_def)

lemma shear_edges_reaches_barrier: "\<exists>M'. shear_edges M M'"
  unfolding shear_edges_def
proof (rule barrier_reached [where m = "\<lambda>M. 0" and w = shear_weight])
  fix M t e info' sends
  assume hd: "shear_edges_handler e t (lookup_vtx M t) = (info', sends)"
  have "(\<Sum>x\<in>#sends. shear_weight (snd x)) < shear_weight e"
  proof (cases e)
    case Shear_edges_local
    with hd consider "sends = {#}"
      | S p d where "sends = visit_all S (Check_and_remove_in t p d)"
      by (auto simp: shear_edges_local_def split: if_splits)
    then show ?thesis
    proof cases
      case 1
      with Shear_edges_local show ?thesis by (simp add: shear_weight_simps)
    next
      case 2
      have "(\<Sum>x\<in>#sends. shear_weight (snd x)) \<le> 2 ^ 32 * 2"
        unfolding 2 using visit_all_weight_le [of shear_weight S "Check_and_remove_in t p d"]
        by (simp only: shear_weight_simps)
      with Shear_edges_local show ?thesis by (simp add: shear_weight_simps)
    qed
  next
    case (Check_and_remove_in s p d)
    with hd show ?thesis
      by (auto simp: check_and_remove_in_def shear_weight_simps split: if_splits)
  next
    case (Remove_out edge)
    with hd show ?thesis
      by (auto simp: remove_out_def shear_weight_simps)
  qed
  then show "(0::nat) < 0 \<or> ((0::nat) = 0 \<and> (\<Sum>x\<in>#sends. shear_weight (snd x)) < shear_weight e)"
    by simp
qed

lemma lookup_set_upd:
  "{v. Q (lookup_vtx (M(t \<mapsto> info')) v)} =
     (if Q info' then insert t {v. Q (lookup_vtx M v)} else {v. Q (lookup_vtx M v)} - {t})"
  by (auto simp: lookup_vtx_upd)









subsection \<open>Trim\<close>

lemma trim_handler_post:
  assumes "trim_trivial_handler e t info = (info', sends)" and "active info'"
  shows "in' info' \<noteq> {} \<and> out info' \<noteq> {}"
proof (cases e)
  case Trim_trivial_local
  with assms show ?thesis
    by (auto simp: trim_trivial_local_def split: if_splits)
next
  case (Trim_vtx sender direction)
  with assms show ?thesis
    by (cases direction) (auto simp: trim_vtx_def Let_def split: if_splits)
qed

lemma trim_barrier_nonempty:
  assumes "trim_trivial M M'" and "v \<in> dom M'" and "active (lookup_vtx M' v)"
  shows "in' (lookup_vtx M' v) \<noteq> {} \<and> out (lookup_vtx M' v) \<noteq> {}"
proof -
  define I :: "trim_event config \<Rightarrow> bool" where
    "I = (\<lambda>c. \<forall>v \<in> dom (fst c). active (lookup_vtx (fst c) v)
            \<and> (in' (lookup_vtx (fst c) v) = {} \<or> out (lookup_vtx (fst c) v) = {})
          \<longrightarrow> (v, Trim_trivial_local) \<in># snd c)"
  from assms(1) have "(step trim_trivial_handler)\<^sup>*\<^sup>* (M, local_for_all M Trim_trivial_local) (M', {#})"
    by (simp add: trim_trivial_def barrier_def)
  then have "I (M', {#})"
  proof (rule steps_invariant)
    show "I (M, local_for_all M Trim_trivial_local)"
      by (simp add: I_def local_for_all_def in_visit_all)
  next
    fix M1 pend t e info' sends
    assume I: "I (M1, pend)" and mem: "(t, e) \<in># pend"
      and hd: "trim_trivial_handler e t (lookup_vtx M1 t) = (info', sends)"
    show "I (M1(t \<mapsto> info'), pend - {#(t, e)#} + sends)"
      unfolding I_def
    proof (intro ballI impI)
      fix v
      assume v: "v \<in> dom (fst (M1(t \<mapsto> info'), pend - {#(t, e)#} + sends))"
        and bad: "active (lookup_vtx (fst (M1(t \<mapsto> info'), pend - {#(t, e)#} + sends)) v)
          \<and> (in' (lookup_vtx (fst (M1(t \<mapsto> info'), pend - {#(t, e)#} + sends)) v) = {}
             \<or> out (lookup_vtx (fst (M1(t \<mapsto> info'), pend - {#(t, e)#} + sends)) v) = {})"
      have "v \<noteq> t"
        using bad trim_handler_post [OF hd] by (auto simp: lookup_vtx_upd)
      with v bad I have "(v, Trim_trivial_local) \<in># pend"
        by (auto simp: I_def lookup_vtx_upd)
      moreover from \<open>v \<noteq> t\<close> have "(v, Trim_trivial_local) \<noteq> (t, e)"
        by simp
      ultimately have "(v, Trim_trivial_local) \<in># (pend - {#(t, e)#}) + sends"
        by (rule pending_kept)
      then show "(v, Trim_trivial_local) \<in># snd (M1(t \<mapsto> info'), pend - {#(t, e)#} + sends)"
        by (simp only: snd_conv)
    qed
  qed
  with assms(2,3) show ?thesis
    by (auto simp: I_def)
qed

lemma trim_trivial_local_idle:
  assumes "\<not> active info \<or> (in' info \<noteq> {} \<and> out info \<noteq> {})"
  shows "trim_trivial_local v info = (info, {#})"
  using assms by (auto simp: trim_trivial_local_def)

text \<open>
  Claim C8. From every state a trim reaches its barrier, and whatever state it ends in, a
  second trim from that state changes nothing: the visit of every vertex leaves its record
  as it is and sends no message, and the state the first trim ended in is the one and only
  state the second trim can end in.
\<close>

theorem trim_trivial_idempotent:
  "(\<exists>M1. trim_trivial M M1)
   \<and> (\<forall>M1. trim_trivial M M1 \<longrightarrow>
        (\<forall>v \<in> dom M1. trim_trivial_local v (lookup_vtx M1 v) = (lookup_vtx M1 v, {#}))
        \<and> (\<forall>M2. trim_trivial M1 M2 \<longleftrightarrow> M2 = M1))"
proof (intro conjI allI impI)
  show "\<exists>M1. trim_trivial M M1"
    by (rule trim_trivial_reaches_barrier)
next
  fix M1
  assume first: "trim_trivial M M1"
  have idle: "trim_trivial_local v (lookup_vtx M1 v) = (lookup_vtx M1 v, {#})" if "v \<in> dom M1" for v
    using trim_barrier_nonempty [OF first that] by (intro trim_trivial_local_idle) blast
  then show "\<forall>v \<in> dom M1. trim_trivial_local v (lookup_vtx M1 v) = (lookup_vtx M1 v, {#})"
    by blast
  from idle have pend: "\<forall>(t, e) \<in># local_for_all M1 Trim_trivial_local.
      t \<in> dom M1 \<and> trim_trivial_handler e t (lookup_vtx M1 t) = (lookup_vtx M1 t, {#})"
    by (auto simp: local_for_all_def in_visit_all)
  fix M2
  show "trim_trivial M1 M2 \<longleftrightarrow> M2 = M1"
  proof
    assume "trim_trivial M1 M2"
    with idle_steps_stay [where h = trim_trivial_handler and c' = "(M2, {#})", OF pend]
    show "M2 = M1"
      by (simp add: trim_trivial_def barrier_def)
  next
    assume "M2 = M1"
    moreover have "trim_trivial M1 M1"
      unfolding trim_trivial_def barrier_def using pend by (rule idle_steps_finish)
    ultimately show "trim_trivial M1 M2"
      by simp
  qed
qed

text \<open>On the two-cycle with a tail the first trim finalizes vertex 3 and erases it from
  vertex 2, which changes the state; the second one leaves that state as it is.\<close>

theorem trim_trivial_idempotent_witness:
  "trim_trivial cycle_tail cycle_tail_trimmed
   \<and> cycle_tail_trimmed \<noteq> cycle_tail
   \<and> trim_trivial_local 2 (lookup_vtx cycle_tail_trimmed 2) = (lookup_vtx cycle_tail_trimmed 2, {#})
   \<and> trim_trivial cycle_tail_trimmed cycle_tail_trimmed"
proof -
  have "2 \<in> dom cycle_tail_trimmed"
    by (simp add: cycle_tail_trimmed_def)
  moreover have "cycle_tail_trimmed \<noteq> cycle_tail"
  proof
    assume "cycle_tail_trimmed = cycle_tail"
    then have "cycle_tail_trimmed 3 = cycle_tail 3"
      by simp
    then show False
      by (simp add: cycle_tail_trimmed_def cycle_tail_def VtxInfo_default_def)
  qed
  ultimately show ?thesis
    using trim_trivial_idempotent [of cycle_tail] trim_cycle_tail by blast
qed







subsection \<open>Phases that keep the adjacency sets\<close>




lemma edge_symmetric_cong:
  assumes "\<And>v. out (lookup_vtx M' v) = out (lookup_vtx M v) \<and> in' (lookup_vtx M' v) = in' (lookup_vtx M v)"
  shows "edge_symmetric M' \<longleftrightarrow> edge_symmetric M"
  using assms by (simp add: edge_symmetric_def)






lemma prep_unterminated_lookup:
  "lookup_vtx (fst (prep_unterminated owner nranks M)) v =
     (if v \<in> dom M then fst (prep_unterminated_visit (lookup_vtx M v)) else lookup_vtx M v)"
  by (auto simp: prep_unterminated_def lookup_vtx_def split: option.splits)

lemma prep_unterminated_keeps_adjacency:
  "out (lookup_vtx (fst (prep_unterminated owner nranks M)) v) = out (lookup_vtx M v)
   \<and> in' (lookup_vtx (fst (prep_unterminated owner nranks M)) v) = in' (lookup_vtx M v)"
  by (simp add: prep_unterminated_lookup prep_unterminated_visit_def)














subsection \<open>Shear\<close>

lemma ucast_u32_u64_u32: "(ucast (ucast (v :: u32) :: u64) :: u32) = v"
  by (simp add: ucast_up_ucast_id is_up)

lemma lookup_vtx_out_dom: "u \<in> out (lookup_vtx M v) \<Longrightarrow> v \<in> dom M"
  by (auto simp: lookup_vtx_def VtxInfo_default_def split: option.splits)

lemma shear_inv_init: "shear_inv M1 (M1, local_for_all M1 Shear_edges_local)"
  unfolding shear_inv_def fst_conv snd_conv
  by (auto simp: local_for_all_def in_visit_all edge_symmetric_def dest: lookup_vtx_out_dom)

lemma shear_inv_step:
  assumes inv: "shear_inv M1 (M, pend)" and mem: "(t, e) \<in># pend"
    and hd: "shear_edges_handler e t (lookup_vtx M t) = (info', sends)"
  shows "shear_inv M1 (M(t \<mapsto> info'), (pend - {#(t, e)#}) + sends)"
proof -
  define L where "L = lookup_vtx M"
  define L1 where "L1 = lookup_vtx M1"
  define L' where "L' = lookup_vtx (M(t \<mapsto> info'))"
  define pend' where "pend' = (pend - {#(t, e)#}) + sends"
  define info where "info = L t"
  have L't: "L' t = info'" and L'o: "\<And>v. v \<noteq> t \<Longrightarrow> L' v = L v"
    by (simp_all add: L'_def L_def lookup_vtx_upd)
  note inv' = inv [unfolded shear_inv_def fst_conv snd_conv, folded L_def L1_def]
  have S0: "active (L v) = active (L1 v)" "marks (L v) = marks (L1 v)"
    "out (L v) \<subseteq> out (L1 v)" "in' (L v) \<subseteq> in' (L1 v)" for v
    using inv' by blast+
  have S1: "(p, d) = marks (L1 s)" if "(t, Check_and_remove_in s p d) \<in># pend" for t s p d
    using inv' that by blast
  have S2: "marks (L1 (ucast e)) \<noteq> marks (L1 t)" "t \<notin> in' (L (ucast e))"
    if "(t, Remove_out e) \<in># pend" for t e
    using inv' that by blast+
  have S6: "u \<in> out (L v)" if "marks (L1 u) = marks (L1 v)" "u \<in> out (L1 v)" for u v
    using inv' that by blast
  have S6': "v \<in> in' (L u)" if "marks (L1 u) = marks (L1 v)" "v \<in> in' (L1 u)" for u v
    using inv' that by blast
  have S7: "((v, Shear_edges_local) \<in># pend \<and> u \<in> out (L v))
          \<or> (u, Check_and_remove_in v (mark_pred (L1 v)) (mark_desc (L1 v))) \<in># pend
          \<or> (v \<notin> in' (L u) \<and> ((v, Remove_out (ucast u)) \<in># pend \<or> u \<notin> out (L v)))"
    if "active (L1 v)" "u \<in> out (L1 v)" "marks (L1 u) \<noteq> marks (L1 v)" for v u
    using inv' that by blast
  have S4: "v \<in> out (L u)" if "edge_symmetric M1" "u \<in> in' (L v)" for u v
    using inv' that by blast
  have S5: "u \<in> in' (L v) \<or> (u, Remove_out (ucast v)) \<in># pend"
    if "edge_symmetric M1" "v \<in> out (L u)" for u v
    using inv' that by blast
  have kept: "x \<in># pend'" if "x \<in># pend" "x \<noteq> (t, e)" for x
    unfolding pend'_def using that by (rule pending_kept)
  have sent: "x \<in># pend'" if "x \<in># sends" for x
    unfolding pend'_def using that by simp
  have origin: "x \<in># pend \<or> x \<in># sends" if "x \<in># pend'" for x
    using that unfolding pend'_def by (rule pending_cases)
  from hd have hd': "shear_edges_handler e t info = (info', sends)"
    by (simp only: info_def L_def)
  have goal: "shear_inv M1 (M(t \<mapsto> info'), pend')"
    if N0: "\<And>v. active (L' v) = active (L1 v) \<and> marks (L' v) = marks (L1 v)
              \<and> out (L' v) \<subseteq> out (L1 v) \<and> in' (L' v) \<subseteq> in' (L1 v)"
      and N1: "\<And>t s p d. (t, Check_and_remove_in s p d) \<in># pend' \<Longrightarrow> (p, d) = marks (L1 s)"
      and N2: "\<And>t e. (t, Remove_out e) \<in># pend' \<Longrightarrow>
                marks (L1 (ucast e)) \<noteq> marks (L1 t) \<and> t \<notin> in' (L' (ucast e))"
      and N6: "\<And>u v. marks (L1 u) = marks (L1 v) \<Longrightarrow>
                (u \<in> out (L1 v) \<longrightarrow> u \<in> out (L' v)) \<and> (v \<in> in' (L1 u) \<longrightarrow> v \<in> in' (L' u))"
      and N7: "\<And>v u. active (L1 v) \<Longrightarrow> u \<in> out (L1 v) \<Longrightarrow> marks (L1 u) \<noteq> marks (L1 v) \<Longrightarrow>
          ((v, Shear_edges_local) \<in># pend' \<and> u \<in> out (L' v))
          \<or> (u, Check_and_remove_in v (mark_pred (L1 v)) (mark_desc (L1 v))) \<in># pend'
          \<or> (v \<notin> in' (L' u) \<and> ((v, Remove_out (ucast u)) \<in># pend' \<or> u \<notin> out (L' v)))"
      and N4: "\<And>u v. edge_symmetric M1 \<Longrightarrow> u \<in> in' (L' v) \<Longrightarrow> v \<in> out (L' u)"
      and N5: "\<And>u v. edge_symmetric M1 \<Longrightarrow> v \<in> out (L' u) \<Longrightarrow>
                u \<in> in' (L' v) \<or> (u, Remove_out (ucast v)) \<in># pend'"
    unfolding shear_inv_def fst_conv snd_conv L'_def [symmetric] L1_def [symmetric]
    using N0 N1 N2 N6 N7 N4 N5 by blast
  show ?thesis
    unfolding pend'_def [symmetric]
  proof (cases e)
    case Shear_edges_local
    from hd' have info': "info' = info"
      and sends: "sends = (if active info then
          visit_all (out info) (Check_and_remove_in t (mark_pred info) (mark_desc info)) else {#})"
      by (auto simp: Shear_edges_local shear_edges_local_def split: if_splits)
    have same: "L' v = L v" for v
      using L't L'o [of v] by (cases "v = t") (simp_all add: info' info_def)
    have tm: "mark_pred info = mark_pred (L1 t)" "mark_desc info = mark_desc (L1 t)"
      "active info = active (L1 t)"
      using S0(1,2) [of t] by (simp_all add: info_def marks_def)
    show "shear_inv M1 (M(t \<mapsto> info'), pend')"
    proof (rule goal)
      show "active (L' v) = active (L1 v) \<and> marks (L' v) = marks (L1 v)
              \<and> out (L' v) \<subseteq> out (L1 v) \<and> in' (L' v) \<subseteq> in' (L1 v)" for v
        using S0 [of v] by (simp add: same)
    next
      fix t2 s p d
      assume "(t2, Check_and_remove_in s p d) \<in># pend'"
      from origin [OF this] show "(p, d) = marks (L1 s)"
        using S1 by (auto simp: sends in_visit_all tm marks_def split: if_splits)
    next
      fix t2 e2
      assume "(t2, Remove_out e2) \<in># pend'"
      from origin [OF this] have "(t2, Remove_out e2) \<in># pend"
        by (auto simp: sends in_visit_all split: if_splits)
      with S2 show "marks (L1 (ucast e2)) \<noteq> marks (L1 t2) \<and> t2 \<notin> in' (L' (ucast e2))"
        by (simp add: same)
    next
      fix u v
      assume "marks (L1 u) = marks (L1 v)"
      with S6 S6' show "(u \<in> out (L1 v) \<longrightarrow> u \<in> out (L' v)) \<and> (v \<in> in' (L1 u) \<longrightarrow> v \<in> in' (L' u))"
        by (simp add: same)
    next
      fix v u
      assume a: "active (L1 v)" "u \<in> out (L1 v)" "marks (L1 u) \<noteq> marks (L1 v)"
      from S7 [OF a] consider
        (loc) "(v, Shear_edges_local) \<in># pend" "u \<in> out (L v)"
        | (chk) "(u, Check_and_remove_in v (mark_pred (L1 v)) (mark_desc (L1 v))) \<in># pend"
        | (rem) "v \<notin> in' (L u)" "(v, Remove_out (ucast u)) \<in># pend \<or> u \<notin> out (L v)"
        by blast
      then show "((v, Shear_edges_local) \<in># pend' \<and> u \<in> out (L' v))
          \<or> (u, Check_and_remove_in v (mark_pred (L1 v)) (mark_desc (L1 v))) \<in># pend'
          \<or> (v \<notin> in' (L' u) \<and> ((v, Remove_out (ucast u)) \<in># pend' \<or> u \<notin> out (L' v)))"
      proof cases
        case loc
        show ?thesis
        proof (cases "v = t")
          case True
          with loc(2) a(1) tm have "(u, Check_and_remove_in v (mark_pred (L1 v)) (mark_desc (L1 v))) \<in># sends"
            by (simp add: sends in_visit_all info_def)
          with sent show ?thesis by blast
        next
          case False
          then have "(v, Shear_edges_local) \<noteq> (t, e)" by simp
          with loc kept show ?thesis by (auto simp: same)
        qed
      next
        case chk
        moreover have "(u, Check_and_remove_in v (mark_pred (L1 v)) (mark_desc (L1 v))) \<noteq> (t, e)"
          by (simp add: Shear_edges_local)
        ultimately show ?thesis using kept by blast
      next
        case rem
        moreover have "(v, Remove_out (ucast u)) \<noteq> (t, e)"
          by (simp add: Shear_edges_local)
        ultimately show ?thesis using kept by (auto simp: same)
      qed
    next
      fix u v
      assume "edge_symmetric M1" "u \<in> in' (L' v)"
      with S4 show "v \<in> out (L' u)" by (simp add: same)
    next
      fix u v
      assume a: "edge_symmetric M1" "v \<in> out (L' u)"
      with S5 [of v u] have "u \<in> in' (L v) \<or> (u, Remove_out (ucast v)) \<in># pend"
        by (simp add: same)
      moreover have "(u, Remove_out (ucast v)) \<noteq> (t, e)"
        by (simp add: Shear_edges_local)
      ultimately show "u \<in> in' (L' v) \<or> (u, Remove_out (ucast v)) \<in># pend'"
        using kept by (auto simp: same)
    qed
  next
    case (Check_and_remove_in s p d)
    from mem S1 have pd: "(p, d) = marks (L1 s)"
      by (simp add: Check_and_remove_in)
    have mt: "marks info = marks (L1 t)"
      using S0(2) [of t] by (simp add: info_def)
    define cut where "cut = (marks (L1 t) \<noteq> marks (L1 s))"
    from hd' have info': "info' = (if cut then info\<lparr>in' := in' info - {s}\<rparr> else info)"
      and sends: "sends = (if cut then {#(s, Remove_out (ucast t))#} else {#})"
      using pd mt by (auto simp: Check_and_remove_in check_and_remove_in_def cut_def marks_def)
    have Lout: "out (L' v) = out (L v)" and Lact: "active (L' v) = active (L v)"
      and Lmarks: "marks (L' v) = marks (L v)"
      and Lin: "in' (L' v) = (if v = t \<and> cut then in' (L v) - {s} else in' (L v))" for v
      using L't L'o [of v] by (cases "v = t"; simp add: info' info_def marks_def)+
    show "shear_inv M1 (M(t \<mapsto> info'), pend')"
    proof (rule goal)
      show "active (L' v) = active (L1 v) \<and> marks (L' v) = marks (L1 v)
              \<and> out (L' v) \<subseteq> out (L1 v) \<and> in' (L' v) \<subseteq> in' (L1 v)" for v
        using S0 [of v] by (auto simp: Lout Lact Lmarks Lin)
    next
      fix t2 s2 p2 d2
      assume "(t2, Check_and_remove_in s2 p2 d2) \<in># pend'"
      from origin [OF this] show "(p2, d2) = marks (L1 s2)"
        using S1 by (auto simp: sends split: if_splits)
    next
      fix t2 e2
      assume "(t2, Remove_out e2) \<in># pend'"
      from origin [OF this] show "marks (L1 (ucast e2)) \<noteq> marks (L1 t2) \<and> t2 \<notin> in' (L' (ucast e2))"
      proof
        assume "(t2, Remove_out e2) \<in># pend"
        with S2 show ?thesis by (auto simp: Lin)
      next
        assume "(t2, Remove_out e2) \<in># sends"
        then have "cut" "t2 = s" "e2 = ucast t"
          by (auto simp: sends split: if_splits)
        then show ?thesis
          by (simp add: ucast_u32_u64_u32 Lin cut_def)
      qed
    next
      fix u v
      assume "marks (L1 u) = marks (L1 v)"
      with S6 S6' show "(u \<in> out (L1 v) \<longrightarrow> u \<in> out (L' v)) \<and> (v \<in> in' (L1 u) \<longrightarrow> v \<in> in' (L' u))"
        by (auto simp: Lout Lin cut_def)
    next
      fix v u
      assume a: "active (L1 v)" "u \<in> out (L1 v)" "marks (L1 u) \<noteq> marks (L1 v)"
      from S7 [OF a] consider
        (loc) "(v, Shear_edges_local) \<in># pend" "u \<in> out (L v)"
        | (chk) "(u, Check_and_remove_in v (mark_pred (L1 v)) (mark_desc (L1 v))) \<in># pend"
        | (rem) "v \<notin> in' (L u)" "(v, Remove_out (ucast u)) \<in># pend \<or> u \<notin> out (L v)"
        by blast
      then show "((v, Shear_edges_local) \<in># pend' \<and> u \<in> out (L' v))
          \<or> (u, Check_and_remove_in v (mark_pred (L1 v)) (mark_desc (L1 v))) \<in># pend'
          \<or> (v \<notin> in' (L' u) \<and> ((v, Remove_out (ucast u)) \<in># pend' \<or> u \<notin> out (L' v)))"
      proof cases
        case loc
        moreover have "(v, Shear_edges_local) \<noteq> (t, e)"
          by (simp add: Check_and_remove_in)
        ultimately show ?thesis using kept by (auto simp: Lout)
      next
        case chk
        show ?thesis
        proof (cases "(u, Check_and_remove_in v (mark_pred (L1 v)) (mark_desc (L1 v))) = (t, e)")
          case False
          with chk kept show ?thesis by blast
        next
          case True
          then have ut: "u = t" and vs: "v = s"
            by (simp_all add: Check_and_remove_in)
          with a(3) have "cut" by (simp add: cut_def)
          then have "v \<notin> in' (L' u)" "(v, Remove_out (ucast u)) \<in># sends"
            by (simp_all add: Lin sends ut vs)
          with sent show ?thesis by blast
        qed
      next
        case rem
        moreover have "(v, Remove_out (ucast u)) \<noteq> (t, e)"
          by (simp add: Check_and_remove_in)
        ultimately show ?thesis using kept by (auto simp: Lout Lin)
      qed
    next
      fix u v
      assume "edge_symmetric M1" "u \<in> in' (L' v)"
      with S4 [of u v] show "v \<in> out (L' u)" by (auto simp: Lout Lin split: if_splits)
    next
      fix u v
      assume a: "edge_symmetric M1" "v \<in> out (L' u)"
      with S5 [of v u] have old: "u \<in> in' (L v) \<or> (u, Remove_out (ucast v)) \<in># pend"
        by (simp add: Lout)
      have ne: "(u, Remove_out (ucast v)) \<noteq> (t, e)"
        by (simp add: Check_and_remove_in)
      show "u \<in> in' (L' v) \<or> (u, Remove_out (ucast v)) \<in># pend'"
      proof (cases "v = t \<and> cut \<and> u = s")
        case True
        then have "(u, Remove_out (ucast v)) \<in># sends" by (simp add: sends)
        with sent show ?thesis by blast
      next
        case False
        with old ne kept show ?thesis by (auto simp: Lin)
      qed
    qed
  next
    case (Remove_out edge)
    define x :: u32 where "x = ucast edge"
    from mem S2 have jx: "marks (L1 x) \<noteq> marks (L1 t)" and tx: "t \<notin> in' (L x)"
      by (simp_all add: Remove_out x_def)
    from hd' have info': "info' = info\<lparr>out := out info - {x}\<rparr>" and sends: "sends = {#}"
      by (simp_all add: Remove_out remove_out_def x_def)
    have Lin: "in' (L' v) = in' (L v)" and Lact: "active (L' v) = active (L v)"
      and Lmarks: "marks (L' v) = marks (L v)"
      and Lout: "out (L' v) = (if v = t then out (L v) - {x} else out (L v))" for v
      using L't L'o [of v] by (cases "v = t"; simp add: info' info_def marks_def)+
    have origin': "y \<in># pend" if "y \<in># pend'" for y
      using origin [OF that] by (simp add: sends)
    show "shear_inv M1 (M(t \<mapsto> info'), pend')"
    proof (rule goal)
      show "active (L' v) = active (L1 v) \<and> marks (L' v) = marks (L1 v)
              \<and> out (L' v) \<subseteq> out (L1 v) \<and> in' (L' v) \<subseteq> in' (L1 v)" for v
        using S0 [of v] by (auto simp: Lout Lact Lmarks Lin)
    next
      fix t2 s2 p2 d2
      assume "(t2, Check_and_remove_in s2 p2 d2) \<in># pend'"
      from origin' [OF this] show "(p2, d2) = marks (L1 s2)"
        by (rule S1)
    next
      fix t2 e2
      assume "(t2, Remove_out e2) \<in># pend'"
      from origin' [OF this] S2 show "marks (L1 (ucast e2)) \<noteq> marks (L1 t2) \<and> t2 \<notin> in' (L' (ucast e2))"
        by (simp add: Lin)
    next
      fix u v
      assume "marks (L1 u) = marks (L1 v)"
      with S6 S6' jx show "(u \<in> out (L1 v) \<longrightarrow> u \<in> out (L' v)) \<and> (v \<in> in' (L1 u) \<longrightarrow> v \<in> in' (L' u))"
        by (auto simp: Lout Lin)
    next
      fix v u
      assume a: "active (L1 v)" "u \<in> out (L1 v)" "marks (L1 u) \<noteq> marks (L1 v)"
      from S7 [OF a] consider
        (loc) "(v, Shear_edges_local) \<in># pend" "u \<in> out (L v)"
        | (chk) "(u, Check_and_remove_in v (mark_pred (L1 v)) (mark_desc (L1 v))) \<in># pend"
        | (rem) "v \<notin> in' (L u)" "(v, Remove_out (ucast u)) \<in># pend \<or> u \<notin> out (L v)"
        by blast
      then show "((v, Shear_edges_local) \<in># pend' \<and> u \<in> out (L' v))
          \<or> (u, Check_and_remove_in v (mark_pred (L1 v)) (mark_desc (L1 v))) \<in># pend'
          \<or> (v \<notin> in' (L' u) \<and> ((v, Remove_out (ucast u)) \<in># pend' \<or> u \<notin> out (L' v)))"
      proof cases
        case loc
        have ne: "(v, Shear_edges_local) \<noteq> (t, e)"
          by (simp add: Remove_out)
        show ?thesis
        proof (cases "v = t \<and> u = x")
          case True
          with tx show ?thesis by (simp add: Lin Lout)
        next
          case False
          with loc ne kept show ?thesis by (auto simp: Lout)
        qed
      next
        case chk
        moreover have "(u, Check_and_remove_in v (mark_pred (L1 v)) (mark_desc (L1 v))) \<noteq> (t, e)"
          by (simp add: Remove_out)
        ultimately show ?thesis using kept by blast
      next
        case rem
        show ?thesis
        proof (cases "(v, Remove_out (ucast u)) = (t, e)")
          case True
          then have "v = t" "u = x"
            by (auto simp: Remove_out x_def ucast_u32_u64_u32)
          with rem(1) show ?thesis by (simp add: Lin Lout)
        next
          case False
          with rem kept show ?thesis by (auto simp: Lin Lout)
        qed
      qed
    next
      fix u v
      assume "edge_symmetric M1" "u \<in> in' (L' v)"
      with S4 [of u v] tx show "v \<in> out (L' u)" by (auto simp: Lout Lin)
    next
      fix u v
      assume a: "edge_symmetric M1" "v \<in> out (L' u)"
      then have vo: "v \<in> out (L u)" and nx: "u = t \<longrightarrow> v \<noteq> x"
        by (auto simp: Lout split: if_splits)
      from S5 [OF a(1) vo] have old: "u \<in> in' (L v) \<or> (u, Remove_out (ucast v)) \<in># pend" .
      have "(u, Remove_out (ucast v)) \<noteq> (t, e)"
      proof
        assume "(u, Remove_out (ucast v)) = (t, e)"
        then have "u = t" "v = x"
          by (auto simp: Remove_out x_def ucast_u32_u64_u32)
        with nx show False by simp
      qed
      with old kept show "u \<in> in' (L' v) \<or> (u, Remove_out (ucast v)) \<in># pend'"
        by (auto simp: Lin)
    qed
  qed
qed

lemma shear_edges_inv_final:
  assumes "shear_edges M1 M2"
  shows "shear_inv M1 (M2, {#})"
proof -
  from assms have "(step shear_edges_handler)\<^sup>*\<^sup>* (M1, local_for_all M1 Shear_edges_local) (M2, {#})"
    by (simp add: shear_edges_def barrier_def)
  then show ?thesis
    using shear_inv_init shear_inv_step by (rule steps_invariant)
qed

lemma shear_edges_cut:
  assumes "shear_edges M1 M2" and "active (lookup_vtx M1 v)" and "u \<in> out (lookup_vtx M1 v)"
    and "marks (lookup_vtx M1 u) \<noteq> marks (lookup_vtx M1 v)"
  shows "u \<notin> out (lookup_vtx M2 v) \<and> v \<notin> in' (lookup_vtx M2 u)"
  using shear_edges_inv_final [OF assms(1)] assms(2-)
  unfolding shear_inv_def fst_conv snd_conv by (metis empty_iff set_mset_empty)

lemma shear_edges_kept:
  assumes "shear_edges M1 M2" and "marks (lookup_vtx M1 u) = marks (lookup_vtx M1 v)"
  shows "(u \<in> out (lookup_vtx M2 v) \<longleftrightarrow> u \<in> out (lookup_vtx M1 v))
       \<and> (v \<in> in' (lookup_vtx M2 u) \<longleftrightarrow> v \<in> in' (lookup_vtx M1 u))"
proof -
  note inv = shear_edges_inv_final [OF assms(1), unfolded shear_inv_def fst_conv snd_conv]
  from inv have sub: "out (lookup_vtx M2 v) \<subseteq> out (lookup_vtx M1 v)"
    "in' (lookup_vtx M2 u) \<subseteq> in' (lookup_vtx M1 u)"
    by blast+
  from inv assms(2) have "u \<in> out (lookup_vtx M1 v) \<longrightarrow> u \<in> out (lookup_vtx M2 v)"
    "v \<in> in' (lookup_vtx M1 u) \<longrightarrow> v \<in> in' (lookup_vtx M2 u)"
    by blast+
  with sub show ?thesis by blast
qed

lemma shear_edges_symmetric:
  assumes "shear_edges M1 M2" and "edge_symmetric M1"
  shows "edge_symmetric M2"
proof -
  note inv = shear_edges_inv_final [OF assms(1), unfolded shear_inv_def fst_conv snd_conv]
  from inv assms(2) have "\<forall>u v. u \<in> in' (lookup_vtx M2 v) \<longrightarrow> v \<in> out (lookup_vtx M2 u)"
    and "\<forall>u v. v \<in> out (lookup_vtx M2 u) \<longrightarrow> u \<in> in' (lookup_vtx M2 v)"
    by simp_all
  then show ?thesis
    unfolding edge_symmetric_def by blast
qed


lemma lookup_vtx_notin: "v \<notin> dom M \<Longrightarrow> lookup_vtx M v = VtxInfo_default"
  by (auto simp: lookup_vtx_def split: option.splits)

lemma prep_unterminated_active_marks:
  assumes "active (lookup_vtx (fst (prep_unterminated owner nranks M)) v)"
  shows "marks (lookup_vtx (fst (prep_unterminated owner nranks M)) v) = (False, False)"
proof (cases "v \<in> dom M")
  case True
  with assms show ?thesis
    by (auto simp: prep_unterminated_lookup prep_unterminated_visit_def marks_def split: if_splits)
next
  case False
  then show ?thesis
    by (simp add: prep_unterminated_lookup lookup_vtx_notin marks_def VtxInfo_default_def)
qed





text \<open>
  Claim C5, as the code has it. Shear reaches its barrier from the state the freeze step
  returns, and at that barrier, for every remaining (active) vertex \<open>v\<close> and every \<open>u\<close> in
  \<open>v.out\<close> whose marking pair at the start of the shear differs from that of \<open>v\<close>, the
  edge is removed on both sides. At the start of the shear the
  freeze step has reset both marks of every remaining vertex, so between two remaining
  vertices every edge of the post-marking state is still there after the shear, whatever
  their marking pairs were when the marking phase ended.
\<close>

theorem shear_after_freeze:
  assumes "prep_unterminated owner nranks M0 = (M1, n)"
  shows "(\<exists>M2. shear_edges M1 M2)
    \<and> (\<forall>M2. shear_edges M1 M2 \<longrightarrow>
         (\<forall>v u. active (lookup_vtx M1 v) \<and> u \<in> out (lookup_vtx M1 v)
              \<and> marks (lookup_vtx M1 u) \<noteq> marks (lookup_vtx M1 v)
            \<longrightarrow> u \<notin> out (lookup_vtx M2 v) \<and> v \<notin> in' (lookup_vtx M2 u))
         \<and> (\<forall>v. active (lookup_vtx M1 v) \<longrightarrow> marks (lookup_vtx M1 v) = (False, False))
         \<and> (\<forall>v u. active (lookup_vtx M1 v) \<and> active (lookup_vtx M1 u)
            \<longrightarrow> (u \<in> out (lookup_vtx M2 v) \<longleftrightarrow> u \<in> out (lookup_vtx M0 v))
              \<and> (v \<in> in' (lookup_vtx M2 u) \<longleftrightarrow> v \<in> in' (lookup_vtx M0 u))))"
proof (intro conjI allI impI)
  show "\<exists>M2. shear_edges M1 M2"
    by (rule shear_edges_reaches_barrier)
next
  from assms have M1: "M1 = fst (prep_unterminated owner nranks M0)"
    by simp
  have m: "marks (lookup_vtx M1 v) = (False, False)" if "active (lookup_vtx M1 v)" for v
    using that unfolding M1 by (rule prep_unterminated_active_marks)
  have adj: "out (lookup_vtx M1 v) = out (lookup_vtx M0 v)" "in' (lookup_vtx M1 v) = in' (lookup_vtx M0 v)" for v
    unfolding M1 by (simp_all add: prep_unterminated_keeps_adjacency)
  fix M2
  assume shear: "shear_edges M1 M2"
  {
    fix v u
    assume "active (lookup_vtx M1 v) \<and> u \<in> out (lookup_vtx M1 v)
        \<and> marks (lookup_vtx M1 u) \<noteq> marks (lookup_vtx M1 v)"
    with shear_edges_cut [OF shear, of v u]
    show "u \<notin> out (lookup_vtx M2 v)" and "v \<notin> in' (lookup_vtx M2 u)"
      by simp_all
  }
  {
    fix v
    assume "active (lookup_vtx M1 v)"
    then show "marks (lookup_vtx M1 v) = (False, False)"
      by (rule m)
  }
  {
    fix v u
    assume a: "active (lookup_vtx M1 v) \<and> active (lookup_vtx M1 u)"
    then have "marks (lookup_vtx M1 u) = marks (lookup_vtx M1 v)"
      using m [of u] m [of v] by simp
    from shear_edges_kept [OF shear this]
    show "u \<in> out (lookup_vtx M2 v) \<longleftrightarrow> u \<in> out (lookup_vtx M0 v)"
      and "v \<in> in' (lookup_vtx M2 u) \<longleftrightarrow> v \<in> in' (lookup_vtx M0 u)"
      by (simp_all add: adj)
  }
qed

text \<open>On the fork graph, round 0: vertex 2 is frozen, the edge 1 -> 2 is cut on both sides,
  and the edge 1 -> 3 between the two remaining vertices is kept.\<close>

theorem shear_after_freeze_witness:
  "prep_unterminated (\<lambda>v. 0) 1 fork_marked = (fork_frozen, 3)
   \<and> shear_edges fork_frozen fork_sheared
   \<and> active (lookup_vtx fork_frozen 1)
   \<and> 2 \<in> out (lookup_vtx fork_frozen 1)
   \<and> marks (lookup_vtx fork_frozen 2) \<noteq> marks (lookup_vtx fork_frozen 1)
   \<and> 2 \<notin> out (lookup_vtx fork_sheared 1)
   \<and> 1 \<notin> in' (lookup_vtx fork_sheared 2)
   \<and> active (lookup_vtx fork_frozen 3)
   \<and> marks (lookup_vtx fork_frozen 3) = (False, False)
   \<and> 3 \<in> out (lookup_vtx fork_marked 1)
   \<and> 3 \<in> out (lookup_vtx fork_sheared 1)"
proof -
  have "active (lookup_vtx fork_frozen 1)" "2 \<in> out (lookup_vtx fork_frozen 1)"
    "marks (lookup_vtx fork_frozen 2) \<noteq> marks (lookup_vtx fork_frozen 1)"
    "active (lookup_vtx fork_frozen 3)" "3 \<in> out (lookup_vtx fork_marked 1)"
    by (simp_all add: lookup_vtx_def fork_frozen_def fork_marked_def marks_def VtxInfo_default_def)
  with shear_after_freeze [OF fork_prep_unterminated] fork_prep_unterminated fork_shear_edges
  show ?thesis
    by blast
qed

text \<open>The same run from the edge list on: vertices 1 and 3 remain, they ended the marking
  phase in the same WCC with the marking pairs (true, false) and (false, true), and the edge
  1 -> 3 survives the shear on both sides.\<close>

theorem shear_after_freeze_counterexample:
  "create_vertex_map fork_edges Map.empty fork
   \<and> trim_trivial fork fork
   \<and> init_wcc_pivots 0 1 3 fork fork_pivoted
   \<and> prop_pivots fork_pivoted fork_marked
   \<and> prep_unterminated (\<lambda>v. 0) 1 fork_marked = (fork_frozen, 3)
   \<and> shear_edges fork_frozen fork_sheared
   \<and> active (lookup_vtx fork_sheared 1)
   \<and> active (lookup_vtx fork_sheared 3)
   \<and> wcc_pivot (lookup_vtx fork_marked 1) = wcc_pivot (lookup_vtx fork_marked 3)
   \<and> marks (lookup_vtx fork_marked 1) = (True, False)
   \<and> marks (lookup_vtx fork_marked 3) = (False, True)
   \<and> 3 \<in> out (lookup_vtx fork_sheared 1)
   \<and> 1 \<in> in' (lookup_vtx fork_sheared 3)"
proof -
  have "active (lookup_vtx fork_sheared 1)" "active (lookup_vtx fork_sheared 3)"
    "wcc_pivot (lookup_vtx fork_marked 1) = wcc_pivot (lookup_vtx fork_marked 3)"
    "marks (lookup_vtx fork_marked 1) = (True, False)"
    "marks (lookup_vtx fork_marked 3) = (False, True)"
    "3 \<in> out (lookup_vtx fork_sheared 1)" "1 \<in> in' (lookup_vtx fork_sheared 3)"
    by (simp_all add: lookup_vtx_def fork_sheared_def fork_marked_def marks_def VtxInfo_default_def)
  with fork_ingest fork_trim fork_pivots fork_prop_pivots fork_prep_unterminated fork_shear_edges
  show ?thesis
    by blast
qed

subsection \<open>Edge symmetry at the barriers\<close>





subsection \<open>Deactivated vertices\<close>




subsection \<open>Pivot selection next to a frozen vertex\<close>

text \<open>
  Claim C1, evaluated on the edge list \<^verbatim>\<open>1 1\<close>, \<^verbatim>\<open>1 0\<close>, \<^verbatim>\<open>0 2\<close>, \<^verbatim>\<open>2 0\<close>. Round 0 freezes
  vertex 2, which keeps its edge to vertex 1. In round 1 the images of 1, 2, 3 are 2, 1, 3.
  Vertex 1 is not queued because the image of its frozen neighbour 2 is below its own, and
  vertex 3 is not queued because the image of 1 is below its own; nothing is sent, and
  pivot selection can only end with \<open>wcc_pivot = 3\<close> at vertex 3, although the active vertex
  1 with image 2 is its neighbour. Marking and freeze then give the vertices 1 and 3 of the
  cycle 1 -> 3 -> 1 the component labels 1 and 3.
\<close>

theorem init_wcc_pivots_frozen_neighbour:
  "create_vertex_map loop_cycle_edges Map.empty loop_cycle
   \<and> trim_trivial loop_cycle loop_cycle
   \<and> init_wcc_pivots 0 1 3 loop_cycle loop_cycle_pivoted
   \<and> prop_pivots loop_cycle_pivoted loop_cycle_marked
   \<and> prep_unterminated (\<lambda>v. 0) 1 loop_cycle_marked = (loop_cycle_frozen, 3)
   \<and> shear_edges loop_cycle_frozen loop_cycle_frozen
   \<and> trim_trivial loop_cycle_frozen loop_cycle_frozen
   \<and> (\<forall>M'. init_wcc_pivots 1 1 3 loop_cycle_frozen M' \<longleftrightarrow> M' = loop_cycle_pivoted1)
   \<and> active (lookup_vtx loop_cycle_pivoted1 1)
   \<and> active (lookup_vtx loop_cycle_pivoted1 3)
   \<and> 1 \<in> out (lookup_vtx loop_cycle_pivoted1 3)
   \<and> 3 \<in> in' (lookup_vtx loop_cycle_pivoted1 1)
   \<and> init_wcc_pivots_perm 1 1 3 1 = 2
   \<and> init_wcc_pivots_perm 1 1 3 3 = 3
   \<and> wcc_pivot (lookup_vtx loop_cycle_pivoted1 1) = 2
   \<and> wcc_pivot (lookup_vtx loop_cycle_pivoted1 3) = 3
   \<and> init_wcc_pivots_perm 1 1 3 1 < wcc_pivot (lookup_vtx loop_cycle_pivoted1 3)
   \<and> \<not> active (lookup_vtx loop_cycle_pivoted1 2)
   \<and> 2 \<in> in' (lookup_vtx loop_cycle_pivoted1 1)
   \<and> init_wcc_pivots_perm 1 1 3 2 = 1
   \<and> prop_pivots loop_cycle_pivoted1 loop_cycle_marked1
   \<and> prep_unterminated (\<lambda>v. 0) 1 loop_cycle_marked1 = (loop_cycle_frozen1, 2)
   \<and> comp_id (lookup_vtx loop_cycle_frozen1 1) = 1
   \<and> comp_id (lookup_vtx loop_cycle_frozen1 3) = 3"
proof -
  have "active (lookup_vtx loop_cycle_pivoted1 1)" "active (lookup_vtx loop_cycle_pivoted1 3)"
    "1 \<in> out (lookup_vtx loop_cycle_pivoted1 3)" "3 \<in> in' (lookup_vtx loop_cycle_pivoted1 1)"
    "wcc_pivot (lookup_vtx loop_cycle_pivoted1 1) = 2" "wcc_pivot (lookup_vtx loop_cycle_pivoted1 3) = 3"
    "\<not> active (lookup_vtx loop_cycle_pivoted1 2)" "2 \<in> in' (lookup_vtx loop_cycle_pivoted1 1)"
    "comp_id (lookup_vtx loop_cycle_frozen1 1) = 1" "comp_id (lookup_vtx loop_cycle_frozen1 3) = 3"
    "init_wcc_pivots_perm 1 1 3 1 < wcc_pivot (lookup_vtx loop_cycle_pivoted1 3)"
    by (simp_all add: lookup_vtx_def loop_cycle_pivoted1_def loop_cycle_frozen1_def VtxInfo_default_def
        perm_values)
  with loop_cycle_ingest loop_cycle_trim loop_cycle_pivots loop_cycle_prop_pivots
    loop_cycle_prep_unterminated loop_cycle_shear_edges loop_cycle_trim1 loop_cycle_pivots1_only
    perm_values(4-6) loop_cycle_prop_pivots1 loop_cycle_prep_unterminated1
  show ?thesis
    by blast
qed

end
